theory Spec2Isabelle
  imports Complex_Main "HOL-Library.Word"
begin

section \<open>Numbers\<close>

text \<open>
  A JavaScript number is a double of IEEE 754: a real number that the format holds, one
  of the two zeros, one of the two infinities, or NaN. \<open>Fin r\<close> is the number of the
  nonzero value \<open>r\<close>, and \<open>Fin 0\<close> the positive zero. The sum, the product and the
  quotient are the exact results rounded to the nearest double, a tie to the even one:
  53 bits of precision, the exponents from -1022 to 1023, subnormal numbers below, an
  infinity above.
\<close>

datatype number = NaN | NegInf | NegZero | Fin real | PosInf

definition signbit :: "number \<Rightarrow> bool" where
  "signbit x = (case x of NegInf \<Rightarrow> True | NegZero \<Rightarrow> True | Fin r \<Rightarrow> r < 0 | _ \<Rightarrow> False)"

definition is_inf :: "number \<Rightarrow> bool" where
  "is_inf x \<longleftrightarrow> x = PosInf \<or> x = NegInf"

definition is_zero :: "number \<Rightarrow> bool" where
  "is_zero x \<longleftrightarrow> x = NegZero \<or> x = Fin 0"

definition value_of :: "number \<Rightarrow> real" where
  "value_of x = (case x of Fin r \<Rightarrow> r | _ \<Rightarrow> 0)"

definition inf_of :: "bool \<Rightarrow> number" where
  "inf_of negative = (if negative then NegInf else PosInf)"

definition zero_of :: "bool \<Rightarrow> number" where
  "zero_of negative = (if negative then NegZero else Fin 0)"

text \<open>The nearest integer, the even one of the two when the real lies half way.\<close>

definition round_even :: "real \<Rightarrow> int" where
  "round_even y =
     (let n = \<lfloor>y\<rfloor>; f = y - of_int n
      in if f < 1 / 2 then n else if 1 / 2 < f then n + 1 else if even n then n else n + 1)"

text \<open>
  The exponent of a positive real \<open>x\<close>: the \<open>e\<close> with \<open>2 ^ e \<le> x < 2 ^ (e + 1)\<close>, kept between
  -1022, the exponent of the subnormal numbers, and 1023. It is counted up from 0, or
  down from -1.
\<close>

fun exponent_up :: "nat \<Rightarrow> int \<Rightarrow> real \<Rightarrow> int" where
  "exponent_up 0 e x = e"
| "exponent_up (Suc n) e x = (if x < 2 powi (e + 1) then e else exponent_up n (e + 1) x)"

fun exponent_down :: "nat \<Rightarrow> int \<Rightarrow> real \<Rightarrow> int" where
  "exponent_down 0 e x = e"
| "exponent_down (Suc n) e x = (if 2 powi e \<le> x then e else exponent_down n (e - 1) x)"

definition exponent :: "real \<Rightarrow> int" where
  "exponent x = (if 1 \<le> x then exponent_up 1023 0 x else exponent_down 1021 (- 1) x)"

text \<open>
  A positive real rounded to 53 bits: to a multiple of \<open>2 ^ (e - 52)\<close>. The double of an
  exact result \<open>x\<close> is then a zero of the sign of \<open>x\<close> below the least subnormal
  number, an infinity from \<open>2 ^ 1024\<close> on; where the exact result is zero, the operation
  gives the sign of the zero.
\<close>

definition round_mag :: "real \<Rightarrow> real" where
  "round_mag x = of_int (round_even (x / 2 powi (exponent x - 52))) * 2 powi (exponent x - 52)"

definition rnd :: "bool \<Rightarrow> real \<Rightarrow> number" where
  "rnd zneg x =
     (if x = 0 then zero_of zneg
      else let m = round_mag \<bar>x\<bar>
           in if 2 ^ 1024 \<le> m then inf_of (x < 0)
              else if m = 0 then zero_of (x < 0)
              else Fin (if x < 0 then - m else m))"

definition num_add :: "number \<Rightarrow> number \<Rightarrow> number" where
  "num_add a b =
     (if a = NaN \<or> b = NaN then NaN
      else if is_inf a then (if is_inf b \<and> a \<noteq> b then NaN else a)
      else if is_inf b then b
      else rnd (signbit a \<and> signbit b) (value_of a + value_of b))"

definition num_mul :: "number \<Rightarrow> number \<Rightarrow> number" where
  "num_mul a b =
     (if a = NaN \<or> b = NaN then NaN
      else if is_inf a \<or> is_inf b
        then (if is_zero a \<or> is_zero b then NaN else inf_of (signbit a \<noteq> signbit b))
      else rnd (signbit a \<noteq> signbit b) (value_of a * value_of b))"

definition num_div :: "number \<Rightarrow> number \<Rightarrow> number" where
  "num_div a b =
     (if a = NaN \<or> b = NaN then NaN
      else if is_inf a then (if is_inf b then NaN else inf_of (signbit a \<noteq> signbit b))
      else if is_inf b then zero_of (signbit a \<noteq> signbit b)
      else if is_zero b then (if is_zero a then NaN else inf_of (signbit a \<noteq> signbit b))
      else rnd (signbit a \<noteq> signbit b) (value_of a / value_of b))"

text \<open>The comparisons \<open><\<close>, \<open>>\<close> and \<open><=\<close>: false with a NaN, and the two zeros are equal.\<close>

definition num_lt :: "number \<Rightarrow> number \<Rightarrow> bool" where
  "num_lt a b \<longleftrightarrow>
     a \<noteq> NaN \<and> b \<noteq> NaN \<and>
     (if a = PosInf \<or> b = NegInf then False
      else if a = NegInf \<or> b = PosInf then True
      else value_of a < value_of b)"

definition num_gt :: "number \<Rightarrow> number \<Rightarrow> bool" where
  "num_gt a b = num_lt b a"

definition num_le :: "number \<Rightarrow> number \<Rightarrow> bool" where
  "num_le a b \<longleftrightarrow> a \<noteq> NaN \<and> b \<noteq> NaN \<and> \<not> num_lt b a"

text \<open>
  \<open>Math.min\<close> and \<open>Math.max\<close>: NaN as soon as one argument is NaN, and the negative
  zero below the positive one.
\<close>

definition Math_min :: "number \<Rightarrow> number \<Rightarrow> number" where
  "Math_min a b =
     (if a = NaN \<or> b = NaN then NaN
      else if num_lt b a then b else if num_lt a b then a
      else if signbit a then a else b)"

definition Math_max :: "number \<Rightarrow> number \<Rightarrow> number" where
  "Math_max a b =
     (if a = NaN \<or> b = NaN then NaN
      else if num_lt a b then b else if num_lt b a then a
      else if signbit a then b else a)"

section \<open>Strings\<close>

text \<open>
  A string is a list of code units; the model holds the code units below 256, which
  are the characters of Latin-1. The white space that \<open>trim\<close> and the class \<open>\s\<close>
  know, up to 255: tab, line feed, vertical tab, form feed, carriage return, space and
  the no-break space.
\<close>

definition isWhiteSpace :: "char \<Rightarrow> bool" where
  "isWhiteSpace c \<longleftrightarrow>
     c \<in> set [CHR 0x09, CHR 0x0A, CHR 0x0B, CHR 0x0C, CHR 0x0D, CHR '' '', CHR 0xA0]"

definition trim :: "string \<Rightarrow> string" where
  "trim s = rev (dropWhile isWhiteSpace (rev (dropWhile isWhiteSpace s)))"

text \<open>
  \<open>toUpperCase\<close>, character by character: the letters of ASCII and of Latin-1 go to
  their capitals, the sharp s to \<open>SS\<close>. The micro sign and the y with diaeresis, whose
  capitals are code units above 255, are kept: they and their capitals are alike
  neither white space nor characters of the code table.
\<close>

definition LOWER_CASE :: string where
  "LOWER_CASE = ''abcdefghijklmnopqrstuvwxyz'' @ [
      CHR 0xE0, CHR 0xE1, CHR 0xE2, CHR 0xE3, CHR 0xE4, CHR 0xE5, CHR 0xE6, CHR 0xE7,
      CHR 0xE8, CHR 0xE9, CHR 0xEA, CHR 0xEB, CHR 0xEC, CHR 0xED, CHR 0xEE, CHR 0xEF,
      CHR 0xF0, CHR 0xF1, CHR 0xF2, CHR 0xF3, CHR 0xF4, CHR 0xF5, CHR 0xF6, CHR 0xF8,
      CHR 0xF9, CHR 0xFA, CHR 0xFB, CHR 0xFC, CHR 0xFD, CHR 0xFE]"

definition UPPER_CASE :: string where
  "UPPER_CASE = ''ABCDEFGHIJKLMNOPQRSTUVWXYZ'' @ [
      CHR 0xC0, CHR 0xC1, CHR 0xC2, CHR 0xC3, CHR 0xC4, CHR 0xC5, CHR 0xC6, CHR 0xC7,
      CHR 0xC8, CHR 0xC9, CHR 0xCA, CHR 0xCB, CHR 0xCC, CHR 0xCD, CHR 0xCE, CHR 0xCF,
      CHR 0xD0, CHR 0xD1, CHR 0xD2, CHR 0xD3, CHR 0xD4, CHR 0xD5, CHR 0xD6, CHR 0xD8,
      CHR 0xD9, CHR 0xDA, CHR 0xDB, CHR 0xDC, CHR 0xDD, CHR 0xDE]"

definition toUpperChar :: "char \<Rightarrow> string" where
  "toUpperChar c =
     (if c = CHR 0xDF then ''SS''
      else (case map_of (zip LOWER_CASE UPPER_CASE) c of Some u \<Rightarrow> [u] | None \<Rightarrow> [c]))"

definition toUpperCase :: "string \<Rightarrow> string" where
  "toUpperCase s = concat (map toUpperChar s)"

text \<open>\<open>s.split(sep)\<close> for a separator of one character: never the empty array.\<close>

fun split :: "char \<Rightarrow> string \<Rightarrow> string list" where
  "split sep [] = [[]]"
| "split sep (c # cs) =
     (if c = sep then [] # split sep cs
      else (c # hd (split sep cs)) # tl (split sep cs))"

text \<open>\<open>s.split('')\<close>: one string per character, the empty array for the empty string.\<close>

definition split_chars :: "string \<Rightarrow> string list" where
  "split_chars s = map (\<lambda>c. [c]) s"

fun join :: "string \<Rightarrow> string list \<Rightarrow> string" where
  "join sep [] = []"
| "join sep [x] = x"
| "join sep (x # y # ys) = x @ sep @ join sep (y # ys)"

text \<open>
  \<open>s.replace(/\s\/\s/g, ' / ')\<close>: the matches are found from left to right and do not
  overlap; the search goes on behind a match.
\<close>

fun replace_separators :: "string \<Rightarrow> string" where
  "replace_separators (a # b # c # rest) =
     (if isWhiteSpace a \<and> b = CHR ''/'' \<and> isWhiteSpace c
      then '' / '' @ replace_separators rest
      else a # replace_separators (b # c # rest))"
| "replace_separators s = s"

section \<open>The code table\<close>

type_synonym MorseDictionary = "string \<rightharpoonup> string"

definition MORSE_ENTRIES :: "(string \<times> string) list" where
  "MORSE_ENTRIES =
   [(''A'', ''.-''), (''B'', ''-...''), (''C'', ''-.-.''), (''D'', ''-..''), (''E'', ''.''),
    (''F'', ''..-.''), (''G'', ''--.''), (''H'', ''....''), (''I'', ''..''), (''J'', ''.---''),
    (''K'', ''-.-''), (''L'', ''.-..''), (''M'', ''--''), (''N'', ''-.''), (''O'', ''---''),
    (''P'', ''.--.''), (''Q'', ''--.-''), (''R'', ''.-.''), (''S'', ''...''), (''T'', ''-''),
    (''U'', ''..-''), (''V'', ''...-''), (''W'', ''.--''), (''X'', ''-..-''), (''Y'', ''-.--''),
    (''Z'', ''--..''),
    (''1'', ''.----''), (''2'', ''..---''), (''3'', ''...--''), (''4'', ''....-''),
    (''5'', ''.....''), (''6'', ''-....''), (''7'', ''--...''), (''8'', ''---..''),
    (''9'', ''----.''), (''0'', ''-----''),
    (''.'', ''.-.-.-''), ('','', ''--..--''), (''?'', ''..--..''), ([CHR 0x27], ''.----.''),
    (''!'', ''-.-.--''), (''/'', ''-..-.''), (''('', ''-.--.''), ('')'', ''-.--.-''),
    (''&'', ''.-...''), ('':'', ''---...''), ('';'', ''-.-.-.''), (''='', ''-...-''),
    (''+'', ''.-.-.''), (''-'', ''-....-''), (''_'', ''..--.-''), ([CHR 0x22], ''.-..-.''),
    (''$'', ''...-..-''), (''@'', ''.--.-.'')]"

definition MORSE_MAP :: MorseDictionary where
  "MORSE_MAP = map_of MORSE_ENTRIES"

text \<open>
  \<open>Object.entries\<close> lists the keys that are array indices first, in ascending order,
  and the other keys in the order of their insertion.
\<close>

definition index_keys :: "string list" where
  "index_keys = map (\<lambda>c. [c]) ''0123456789''"

definition Object_entries :: "(string \<times> string) list \<Rightarrow> (string \<times> string) list" where
  "Object_entries kvs =
     concat (map (\<lambda>k. filter (\<lambda>kv. fst kv = k) kvs) index_keys)
     @ filter (\<lambda>kv. fst kv \<notin> set index_keys) kvs"

definition REVERSE_MORSE_MAP :: MorseDictionary where
  "REVERSE_MORSE_MAP =
     fold (\<lambda>(char, code) acc. acc(code \<mapsto> char)) (Object_entries MORSE_ENTRIES) Map.empty"

section \<open>The codec\<close>

text \<open>
  A read \<open>obj[key]\<close> of a plain object: the value of its own key, or else what
  \<open>Object.prototype\<close> holds under that name, which is a function (of the name
  \<open>Object\<close> for \<open>constructor\<close>) or, for \<open>__proto__\<close>, the prototype itself; or else
  undefined.
\<close>

datatype js_value = Undefined | Str string | Function string | ObjectPrototype

definition OBJECT_PROTOTYPE_METHODS :: "string list" where
  "OBJECT_PROTOTYPE_METHODS =
     [''hasOwnProperty'', ''isPrototypeOf'', ''propertyIsEnumerable'', ''toLocaleString'',
      ''toString'', ''valueOf'', ''__defineGetter__'', ''__defineSetter__'',
      ''__lookupGetter__'', ''__lookupSetter__'']"

definition get_property :: "MorseDictionary \<Rightarrow> string \<Rightarrow> js_value" where
  "get_property obj key =
     (case obj key of
        Some v \<Rightarrow> Str v
      | None \<Rightarrow>
          if key = ''constructor'' then Function ''Object''
          else if key = ''__proto__'' then ObjectPrototype
          else if key \<in> set OBJECT_PROTOTYPE_METHODS then Function key
          else Undefined)"

text \<open>\<open>v || ''\<close>: the empty string for undefined and for the empty string.\<close>

definition or_empty :: "js_value \<Rightarrow> js_value" where
  "or_empty v = (case v of Undefined \<Rightarrow> Str [] | _ \<Rightarrow> v)"

text \<open>
  The text of an element, as \<open>join\<close> takes it. The text of a built-in function is
  left to the implementation; it is given here as V8 prints it.
\<close>

definition element_text :: "js_value \<Rightarrow> string" where
  "element_text v =
     (case v of
        Undefined \<Rightarrow> []
      | Str s \<Rightarrow> s
      | Function name \<Rightarrow> ''function '' @ name @ ''() { [native code] }''
      | ObjectPrototype \<Rightarrow> ''[object Object]'')"

text \<open>
  The callbacks of the two \<open>map\<close> calls, \<open>MORSE_MAP[char] || ''\<close> behind the test
  for the space and \<open>REVERSE_MORSE_MAP[code] || ''\<close>, each with the text that \<open>join\<close>
  makes of its result.
\<close>

definition char_to_code :: "string \<Rightarrow> string" where
  "char_to_code char =
     (if char = '' '' then ''/''
      else element_text (or_empty (get_property MORSE_MAP char)))"

definition code_to_char :: "string \<Rightarrow> string" where
  "code_to_char code = element_text (or_empty (get_property REVERSE_MORSE_MAP code))"

definition textToMorse :: "string \<Rightarrow> string" where
  "textToMorse text =
     trim (replace_separators (join '' ''
       (map char_to_code (split_chars (toUpperCase text)))))"

definition morseToText :: "string \<Rightarrow> string" where
  "morseToText morse =
     join '' ''
       (map (\<lambda>word. join '''' (map code_to_char (split CHR '' '' (trim word))))
            (split CHR ''/'' (trim morse)))"

section \<open>The timing generator\<close>

datatype SoundType = CW | TELEGRAPH

datatype AlphabetType = LATIN

record AppConfig =
  wpm :: number
  farnsworth :: number
  pitch :: number
  volume :: number
  soundType :: SoundType
  alphabet :: AlphabetType

definition DEFAULT_CONFIG :: AppConfig where
  "DEFAULT_CONFIG =
     \<lparr>wpm = Fin 20, farnsworth = Fin 20, pitch = Fin 550, volume = Fin 80,
      soundType = CW, alphabet = LATIN\<rparr>"

datatype EventType = On | Off

record MorseEvent =
  type :: EventType
  duration :: number
  charIndex :: "nat option"

definition DOT_UNITS :: number where "DOT_UNITS = Fin 1"
definition DASH_UNITS :: number where "DASH_UNITS = Fin 3"
definition INTRA_CHAR_GAP :: number where "INTRA_CHAR_GAP = Fin 1"
definition INTER_CHAR_GAP :: number where "INTER_CHAR_GAP = Fin 3"
definition WORD_GAP :: number where "WORD_GAP = Fin 7"

definition unitMs :: "AppConfig \<Rightarrow> number" where
  "unitMs config = num_div (Fin 1200) (wpm config)"

definition farnsworthUnitMs :: "AppConfig \<Rightarrow> number" where
  "farnsworthUnitMs config =
     (if num_lt (farnsworth config) (wpm config) \<and> num_gt (farnsworth config) (Fin 0)
      then num_div (Fin 1200) (farnsworth config)
      else unitMs config)"

text \<open>
  The three nested \<open>forEach\<close> loops push their events on one array; each is the
  concatenation of what its callback pushes at every index.
\<close>

definition signal_events :: "number \<Rightarrow> string list \<Rightarrow> MorseEvent list" where
  "signal_events u signals =
     concat (map (\<lambda>(sIdx, sig).
        \<lparr>type = On,
         duration = (if sig = ''-'' then num_mul DASH_UNITS u else num_mul DOT_UNITS u),
         charIndex = None\<rparr>
        # (if int sIdx < int (length signals) - 1
           then [\<lparr>type = Off, duration = num_mul INTRA_CHAR_GAP u, charIndex = None\<rparr>]
           else []))
       (enumerate 0 signals))"

definition char_events :: "number \<Rightarrow> number \<Rightarrow> string list \<Rightarrow> MorseEvent list" where
  "char_events u fu chars =
     concat (map (\<lambda>(cIdx, char).
        if char = [] then []
        else signal_events u (split_chars char)
             @ (if int cIdx < int (length chars) - 1
                then [\<lparr>type = Off, duration = num_mul INTER_CHAR_GAP fu, charIndex = None\<rparr>]
                else []))
       (enumerate 0 chars))"

definition word_events :: "number \<Rightarrow> number \<Rightarrow> string list \<Rightarrow> MorseEvent list" where
  "word_events u fu words =
     concat (map (\<lambda>(wIdx, word).
        char_events u fu (split CHR '' '' (trim word))
        @ (if int wIdx < int (length words) - 1
           then [\<lparr>type = Off, duration = num_mul WORD_GAP fu, charIndex = None\<rparr>]
           else []))
       (enumerate 0 words))"

definition generateTimingSequence :: "string \<Rightarrow> AppConfig \<Rightarrow> MorseEvent list" where
  "generateTimingSequence morse config =
     word_events (unitMs config) (farnsworthUnitMs config) (split CHR ''/'' morse)"

text \<open>\<open>sequence.reduce((acc, e) => acc + e.duration, 0)\<close>, as the renderer sums it.\<close>

definition totalDurationMs :: "MorseEvent list \<Rightarrow> number" where
  "totalDurationMs sequence = fold (\<lambda>e acc. num_add acc (duration e)) sequence (Fin 0)"

section \<open>The container encoder\<close>

text \<open>
  The conversions of a number to an integer of 32 or 16 bits: the fraction is cut off
  towards zero, the integer is taken modulo the width; NaN and the infinities give 0.
\<close>

definition trunc :: "real \<Rightarrow> int" where
  "trunc r = (if r < 0 then \<lceil>r\<rceil> else \<lfloor>r\<rfloor>)"

definition ToUint32 :: "number \<Rightarrow> 32 word" where
  "ToUint32 x = (case x of Fin r \<Rightarrow> word_of_int (trunc r) | _ \<Rightarrow> 0)"

definition ToUint16 :: "number \<Rightarrow> 16 word" where
  "ToUint16 x = (case x of Fin r \<Rightarrow> word_of_int (trunc r) | _ \<Rightarrow> 0)"

text \<open>\<open>x|0\<close>: the number as a signed integer of 32 bits.\<close>

definition bitor_zero :: "number \<Rightarrow> number" where
  "bitor_zero x = Fin (of_int (sint (ToUint32 x)))"

type_synonym byte = "8 word"

definition le16 :: "16 word \<Rightarrow> byte list" where
  "le16 w = [ucast w, ucast (drop_bit 8 w)]"

definition le32 :: "32 word \<Rightarrow> byte list" where
  "le32 w = [ucast w, ucast (drop_bit 8 w), ucast (drop_bit 16 w), ucast (drop_bit 24 w)]"

text \<open>The readers of a field, by which the theorems below state what the stream holds.\<close>

definition u16_at :: "nat \<Rightarrow> byte list \<Rightarrow> nat" where
  "u16_at i bs = unat (bs ! i) + 256 * unat (bs ! (i + 1))"

definition u32_at :: "nat \<Rightarrow> byte list \<Rightarrow> nat" where
  "u32_at i bs =
     unat (bs ! i) + 256 * unat (bs ! (i + 1)) + 65536 * unat (bs ! (i + 2))
     + 16777216 * unat (bs ! (i + 3))"

definition s16_at :: "nat \<Rightarrow> byte list \<Rightarrow> int" where
  "s16_at i bs = (let u = int (u16_at i bs) in if u < 32768 then u else u - 65536)"

datatype error = RangeError

text \<open>A write through the \<open>DataView\<close>: a RangeError when it does not fit the buffer.\<close>

definition write_bytes :: "nat \<Rightarrow> byte list \<Rightarrow> byte list \<Rightarrow> error + byte list" where
  "write_bytes byteOffset bs buf =
     (if byteOffset + length bs \<le> length buf
      then Inr (take byteOffset buf @ bs @ drop (byteOffset + length bs) buf)
      else Inl RangeError)"

record AudioBuffer =
  sampleRate :: number
  length_ab :: nat
  channelData :: "number list list"

definition numberOfChannels :: "AudioBuffer \<Rightarrow> nat" where
  "numberOfChannels abuffer = length (channelData abuffer)"

definition getChannelData :: "AudioBuffer \<Rightarrow> nat \<Rightarrow> number list" where
  "getChannelData abuffer i = channelData abuffer ! i"

text \<open>A read of a typed array: beyond its end the element is undefined, a NaN in arithmetic.\<close>

definition element_at :: "number list \<Rightarrow> nat \<Rightarrow> number" where
  "element_at channel i = (if i < length channel then channel ! i else NaN)"

text \<open>The variables that the encoder and its two local functions share.\<close>

record WavWriter =
  view :: "byte list"
  pos :: nat
  offset :: nat

definition setUint16 :: "number \<Rightarrow> WavWriter \<Rightarrow> error + WavWriter" where
  "setUint16 data s =
     (case write_bytes (pos s) (le16 (ToUint16 data)) (view s) of
        Inl e \<Rightarrow> Inl e
      | Inr v \<Rightarrow> Inr (s\<lparr>view := v, pos := pos s + 2\<rparr>))"

definition setUint32 :: "number \<Rightarrow> WavWriter \<Rightarrow> error + WavWriter" where
  "setUint32 data s =
     (case write_bytes (pos s) (le32 (ToUint32 data)) (view s) of
        Inl e \<Rightarrow> Inl e
      | Inr v \<Rightarrow> Inr (s\<lparr>view := v, pos := pos s + 4\<rparr>))"

text \<open>Statements in sequence: the first error ends the run.\<close>

fun run_all :: "('s \<Rightarrow> error + 's) list \<Rightarrow> 's \<Rightarrow> error + 's" where
  "run_all [] s = Inr s"
| "run_all (a # as) s = (case a s of Inl e \<Rightarrow> Inl e | Inr s' \<Rightarrow> run_all as s')"

text \<open>A length or a count, as the number that the source computes with.\<close>

definition of_count :: "int \<Rightarrow> number" where
  "of_count n = Fin (of_int n)"

definition write_header :: "AudioBuffer \<Rightarrow> int \<Rightarrow> WavWriter \<Rightarrow> error + WavWriter" where
  "write_header abuffer len =
     (let numOfChan = of_count (int (numberOfChannels abuffer)) in
      run_all
       [setUint32 (Fin 0x46464952),
        setUint32 (of_count (len - 8)),
        setUint32 (Fin 0x45564157),
        setUint32 (Fin 0x20746d66),
        setUint32 (Fin 16),
        setUint16 (Fin 1),
        setUint16 numOfChan,
        setUint32 (sampleRate abuffer),
        setUint32 (num_mul (num_mul (sampleRate abuffer) (Fin 2)) numOfChan),
        setUint16 (num_mul numOfChan (Fin 2)),
        setUint16 (Fin 16),
        setUint32 (Fin 0x61746164),
        (\<lambda>s. setUint32 (of_count (len - int (pos s) - 4)) s)])"

text \<open>
  The body of the inner loop, for the channel \<open>i\<close>: \<open>pos\<close> is the index of the sample
  that is read, \<open>44 + offset\<close> the place of the two bytes that \<open>setInt16\<close> writes,
  which are the low 16 bits of the integer.
\<close>

definition write_sample :: "AudioBuffer \<Rightarrow> nat \<Rightarrow> WavWriter \<Rightarrow> error + WavWriter" where
  "write_sample abuffer i s =
     (let clamped = Math_max (Fin (- 1))
                      (Math_min (Fin 1) (element_at (getChannelData abuffer i) (pos s)));
          sample = bitor_zero
                     (if num_lt (num_add (Fin (1 / 2)) clamped) (Fin 0)
                      then num_mul clamped (Fin 32768)
                      else num_mul clamped (Fin 32767))
      in case write_bytes (44 + offset s) (le16 (ToUint16 sample)) (view s) of
           Inl e \<Rightarrow> Inl e
         | Inr v \<Rightarrow> Inr (s\<lparr>view := v, offset := offset s + 2\<rparr>))"

text \<open>One turn of the \<open>while\<close> loop: the inner loop over the channels, then \<open>pos++\<close>.\<close>

definition write_frame :: "AudioBuffer \<Rightarrow> WavWriter \<Rightarrow> error + WavWriter" where
  "write_frame abuffer s =
     (case run_all (map (write_sample abuffer) [0..<numberOfChannels abuffer]) s of
        Inl e \<Rightarrow> Inl e
      | Inr s' \<Rightarrow> Inr (s'\<lparr>pos := pos s' + 1\<rparr>))"

function write_data :: "AudioBuffer \<Rightarrow> WavWriter \<Rightarrow> error + WavWriter" where
  "write_data abuffer s =
     (if pos s < length_ab abuffer
      then (case write_frame abuffer s of
              Inl e \<Rightarrow> Inl e
            | Inr s' \<Rightarrow> write_data abuffer s')
      else Inr s)"
  by pat_completeness auto
termination
proof (relation "measure (\<lambda>(abuffer, s). length_ab abuffer - pos s)")
  show "wf (measure (\<lambda>(abuffer, s). length_ab abuffer - pos s))"
    by simp
next
  fix abuffer :: AudioBuffer and s s' :: WavWriter
  assume less: "pos s < length_ab abuffer" and frame: "write_frame abuffer s = Inr s'"
  have kept: "pos t' = pos t"
    if "run_all (map (write_sample abuffer) is) t = Inr t'" for "is" t t'
    using that
  proof (induction "is" arbitrary: t)
    case Nil
    then show ?case by simp
  next
    case (Cons i "is")
    then show ?case
      by (auto simp: write_sample_def Let_def split: sum.splits)
  qed
  from frame have "pos s' = pos s + 1"
    by (auto simp: write_frame_def split: sum.splits dest: kept)
  with less show "((abuffer, s'), (abuffer, s)) \<in> measure (\<lambda>(abuffer, s). length_ab abuffer - pos s)"
    by simp
qed

definition bufferToWav :: "AudioBuffer \<Rightarrow> error + byte list" where
  "bufferToWav abuffer =
     (let numOfChan = numberOfChannels abuffer;
          len = length_ab abuffer * numOfChan * 2 + 44
      in case write_header abuffer (int len) \<lparr>view = replicate len 0, pos = 0, offset = 0\<rparr> of
           Inl e \<Rightarrow> Inl e
         | Inr s \<Rightarrow> (case write_data abuffer s of
                       Inl e \<Rightarrow> Inl e
                     | Inr s' \<Rightarrow> Inr (view s')))"

section \<open>Auxiliary definitions\<close>

text \<open>
  A \<open>forEach\<close> whose callback compares its index with the last one, as a recursion
  on the array: the flag tells the callback that an element follows.
\<close>

fun each_last :: "('a \<Rightarrow> bool \<Rightarrow> 'b list) \<Rightarrow> 'a list \<Rightarrow> 'b list" where
  "each_last F [] = []"
| "each_last F [x] = F x False"
| "each_last F (x # y # ys) = F x True @ each_last F (y # ys)"

text \<open>The two shapes of event that the generator pushes.\<close>

definition on_event :: "number \<Rightarrow> string \<Rightarrow> MorseEvent" where
  "on_event u sig = \<lparr>type = On,
         duration = (if sig = ''-'' then num_mul DASH_UNITS u else num_mul DOT_UNITS u),
         charIndex = None\<rparr>"

definition off_event :: "number \<Rightarrow> MorseEvent" where
  "off_event d = \<lparr>type = Off, duration = d, charIndex = None\<rparr>"

text \<open>A string whose only white space is the space.\<close>

definition only_spaces :: "string \<Rightarrow> bool" where
  "only_spaces s \<longleftrightarrow> (\<forall>c \<in> set s. isWhiteSpace c \<longrightarrow> c = CHR '' '')"

text \<open>
  The decoder without its trimming: a word, and a code string, as \<open>morseToText\<close>
  decodes them once the white space at the ends is gone.
\<close>

definition decode_word :: "string \<Rightarrow> string" where
  "decode_word w = join [] (map code_to_char (split CHR '' '' w))"

definition decode_words :: "string \<Rightarrow> string" where
  "decode_words s = join '' '' (map decode_word (split CHR ''/'' s))"

text \<open>
  The state of the encoder after it has written some bytes in order: what is written,
  then the zeros of the fresh buffer. And the 44 bytes that the header writes.
\<close>

definition fresh :: "byte list \<Rightarrow> nat \<Rightarrow> nat \<Rightarrow> WavWriter" where
  "fresh written k off = \<lparr>view = written @ replicate k 0, pos = length written, offset = off\<rparr>"

definition header_bytes :: "AudioBuffer \<Rightarrow> int \<Rightarrow> byte list" where
  "header_bytes abuffer len =
     (let numOfChan = of_count (int (numberOfChannels abuffer)) in
      le32 (ToUint32 (Fin 0x46464952)) @
      le32 (ToUint32 (of_count (len - 8))) @
      le32 (ToUint32 (Fin 0x45564157)) @
      le32 (ToUint32 (Fin 0x20746d66)) @
      le32 (ToUint32 (Fin 16)) @
      le16 (ToUint16 (Fin 1)) @
      le16 (ToUint16 numOfChan) @
      le32 (ToUint32 (sampleRate abuffer)) @
      le32 (ToUint32 (num_mul (num_mul (sampleRate abuffer) (Fin 2)) numOfChan)) @
      le16 (ToUint16 (num_mul numOfChan (Fin 2))) @
      le16 (ToUint16 (Fin 16)) @
      le32 (ToUint32 (Fin 0x61746164)) @
      le32 (ToUint32 (of_count (len - 40 - 4))))"

section \<open>Rounding\<close>

lemma exponent_up_spec:
  "2 powi e \<le> x \<Longrightarrow>
   2 powi (exponent_up n e x) \<le> x \<and> e \<le> exponent_up n e x \<and>
   exponent_up n e x \<le> e + int n \<and>
   (x < 2 powi (exponent_up n e x + 1) \<or> exponent_up n e x = e + int n)"
proof (induction n arbitrary: e)
  case 0
  then show ?case by simp
next
  case (Suc n)
  show ?case
  proof (cases "x < 2 powi (e + 1)")
    case True
    with Suc.prems show ?thesis by simp
  next
    case False
    then have "2 powi (e + 1) \<le> x" by simp
    from Suc.IH [OF this] False show ?thesis by auto
  qed
qed

lemma exponent_down_spec:
  "x < 2 powi (e + 1) \<Longrightarrow>
   x < 2 powi (exponent_down n e x + 1) \<and> exponent_down n e x \<le> e \<and>
   e - int n \<le> exponent_down n e x \<and>
   (2 powi (exponent_down n e x) \<le> x \<or> exponent_down n e x = e - int n)"
proof (induction n arbitrary: e)
  case 0
  then show ?case by simp
next
  case (Suc n)
  show ?case
  proof (cases "2 powi e \<le> x")
    case True
    with Suc.prems show ?thesis by simp
  next
    case False
    then have "x < 2 powi (e - 1 + 1)" by simp
    from Suc.IH [OF this] False show ?thesis by auto
  qed
qed

lemma exponent_range: "- 1022 \<le> exponent x \<and> exponent x \<le> 1023"
proof (cases "1 \<le> x")
  case True
  then have "2 powi 0 \<le> x" by simp
  from exponent_up_spec [OF this, of 1023] True show ?thesis
    by (simp add: exponent_def)
next
  case False
  then have "x < 2 powi (- 1 + 1)" by simp
  from exponent_down_spec [OF this, of 1021] False show ?thesis
    by (simp add: exponent_def)
qed

lemma exponent_upper:
  assumes "x < 2 ^ 1024"
  shows "x < 2 powi (exponent x + 1)"
proof (cases "1 \<le> x")
  case True
  then have "2 powi 0 \<le> x" by simp
  from exponent_up_spec [OF this, of 1023]
  have "x < 2 powi (exponent_up 1023 0 x + 1) \<or> exponent_up 1023 0 x = 1023" by simp
  with assms True show ?thesis
    by (auto simp: exponent_def)
next
  case False
  then have "x < 2 powi (- 1 + 1)" by simp
  from exponent_down_spec [OF this, of 1021] False show ?thesis
    by (simp add: exponent_def)
qed

lemma exponent_lower:
  assumes "2 powi (- 1022) \<le> x"
  shows "2 powi (exponent x) \<le> x"
proof (cases "1 \<le> x")
  case True
  then have "2 powi 0 \<le> x" by simp
  from exponent_up_spec [OF this, of 1023] True show ?thesis
    by (simp add: exponent_def)
next
  case False
  then have "x < 2 powi (- 1 + 1)" by simp
  from exponent_down_spec [OF this, of 1021]
  have "2 powi (exponent_down 1021 (- 1) x) \<le> x \<or> exponent_down 1021 (- 1) x = - 1022"
    by simp
  with assms False show ?thesis
    by (auto simp: exponent_def)
qed

lemma exponent_subnormal:
  assumes "x < 2 powi (- 1022)"
  shows "exponent x = - 1022"
proof -
  have "(2::real) powi (- 1022) \<le> 2 powi 0" by (rule power_int_increasing) simp_all
  with assms have small: "\<not> 1 \<le> x" by simp
  then have "x < 2 powi (- 1 + 1)" by simp
  from exponent_down_spec [OF this, of 1021]
  have r: "- 1022 \<le> exponent_down 1021 (- 1) x"
    and c: "2 powi (exponent_down 1021 (- 1) x) \<le> x \<or> exponent_down 1021 (- 1) x = - 1022"
    by simp_all
  have "exponent_down 1021 (- 1) x = - 1022"
  proof (rule ccontr)
    assume n: "exponent_down 1021 (- 1) x \<noteq> - 1022"
    with c have "2 powi (exponent_down 1021 (- 1) x) \<le> x" by simp
    moreover have "(2::real) powi (- 1022) \<le> 2 powi (exponent_down 1021 (- 1) x)"
      using r by (intro power_int_increasing) simp_all
    ultimately show False using assms by simp
  qed
  with small show ?thesis by (simp add: exponent_def)
qed

lemma exponent_eqI:
  assumes "- 1022 \<le> e" and "e \<le> 1023" and "2 powi e \<le> x" and "x < 2 powi (e + 1)"
  shows "exponent x = e"
proof -
  have "(2::real) powi (e + 1) \<le> 2 powi 1024"
    using assms(2) by (intro power_int_increasing) simp_all
  with assms(4) have "x < 2 ^ 1024" by simp
  then have up: "x < 2 powi (exponent x + 1)" by (rule exponent_upper)
  have "(2::real) powi (- 1022) \<le> 2 powi e"
    using assms(1) by (intro power_int_increasing) simp_all
  with assms(3) have "2 powi (- 1022) \<le> x" by simp
  then have lo: "2 powi (exponent x) \<le> x" by (rule exponent_lower)
  have "\<not> e < exponent x"
  proof
    assume "e < exponent x"
    then have "(2::real) powi (e + 1) \<le> 2 powi (exponent x)"
      by (intro power_int_increasing) simp_all
    with lo assms(4) show False by simp
  qed
  moreover have "\<not> exponent x < e"
  proof
    assume "exponent x < e"
    then have "(2::real) powi (exponent x + 1) \<le> 2 powi e"
      by (intro power_int_increasing) simp_all
    with up assms(3) show False by simp
  qed
  ultimately show ?thesis by simp
qed

lemma exponent_huge:
  assumes "2 ^ 1024 \<le> x"
  shows "exponent x = 1023"
proof -
  have "(1::real) \<le> 2 ^ 1024" by simp
  with assms have one: "1 \<le> x" by linarith
  then have "2 powi 0 \<le> x" by simp
  from exponent_up_spec [OF this, of 1023]
  have a: "exponent_up 1023 0 x \<le> 1023"
    and b: "x < 2 powi (exponent_up 1023 0 x + 1) \<or> exponent_up 1023 0 x = 1023"
    by simp_all
  have "exponent_up 1023 0 x = 1023"
  proof (rule ccontr)
    assume "exponent_up 1023 0 x \<noteq> 1023"
    with b have "x < 2 powi (exponent_up 1023 0 x + 1)" by simp
    moreover have "(2::real) powi (exponent_up 1023 0 x + 1) \<le> 2 powi 1024"
      using a by (intro power_int_increasing) simp_all
    ultimately show False using assms by simp
  qed
  with one show ?thesis by (simp add: exponent_def)
qed

lemma exponent_mono:
  assumes "x \<le> y"
  shows "exponent x \<le> exponent y"
proof (rule ccontr)
  assume "\<not> exponent x \<le> exponent y"
  then have less: "exponent y < exponent x" by simp
  have "y < 2 ^ 1024"
  proof (rule ccontr)
    assume "\<not> y < 2 ^ 1024"
    then have "exponent y = 1023" by (simp add: exponent_huge)
    with less exponent_range [of x] show False by simp
  qed
  then have "y < 2 powi (exponent y + 1)" by (rule exponent_upper)
  moreover have "(2::real) powi (exponent y + 1) \<le> 2 powi (exponent x)"
    using less by (intro power_int_increasing) simp_all
  ultimately have yx: "y < 2 powi (exponent x)" by simp
  have "2 powi (- 1022) \<le> x"
  proof (rule ccontr)
    assume "\<not> 2 powi (- 1022) \<le> x"
    then have "exponent x = - 1022" by (simp add: exponent_subnormal)
    with less exponent_range [of y] show False by simp
  qed
  then have "2 powi (exponent x) \<le> x" by (rule exponent_lower)
  with yx assms show False by simp
qed

lemma round_even_of_int [simp]: "round_even (of_int n) = n"
  by (simp add: round_even_def)

lemma round_even_numeral [simp]: "round_even (numeral k) = numeral k"
  using round_even_of_int [of "numeral k"] by simp

lemma round_even_near: "\<bar>of_int (round_even y) - y\<bar> \<le> 1 / 2"
proof -
  have "of_int \<lfloor>y\<rfloor> \<le> y" "y < of_int \<lfloor>y\<rfloor> + 1" by linarith+
  then show ?thesis
    by (auto simp: round_even_def Let_def)
qed

lemma round_even_mono:
  assumes "y1 \<le> y2"
  shows "round_even y1 \<le> round_even y2"
proof (cases "y1 = y2")
  case True
  then show ?thesis by simp
next
  case False
  with assms have "y1 < y2" by simp
  moreover have "of_int (round_even y1) \<le> y1 + 1 / 2"
    using round_even_near [of y1] by linarith
  moreover have "y2 - 1 / 2 \<le> of_int (round_even y2)"
    using round_even_near [of y2] by linarith
  ultimately have "(of_int (round_even y1) :: real) < of_int (round_even y2) + 1"
    by linarith
  then have "round_even y1 < round_even y2 + 1"
    by (metis of_int_1 of_int_add of_int_less_iff)
  then show ?thesis by simp
qed

lemma round_mag_nonneg: "0 \<le> x \<Longrightarrow> 0 \<le> round_mag x"
proof -
  assume "0 \<le> x"
  then have "0 \<le> x / 2 powi (exponent x - 52)" by simp
  then have "round_even 0 \<le> round_even (x / 2 powi (exponent x - 52))"
    by (rule round_even_mono)
  then have "0 \<le> round_even (x / 2 powi (exponent x - 52))"
    using round_even_of_int [of 0] by simp
  then show ?thesis by (simp add: round_mag_def)
qed

lemma pow2_split: "(2::real) powi (a + b) = 2 powi a * 2 powi b"
  by (simp add: power_int_add)

lemma pow2_53: "(2::real) powi (e + 1) = 2 powi 53 * 2 powi (e - 52)"
  using pow2_split [of 53 "e - 52"] by (simp add: add.commute)

lemma pow2_52: "(2::real) powi e = 2 powi 52 * 2 powi (e - 52)"
  using pow2_split [of 52 "e - 52"] by simp

lemma round_mag_mono:
  assumes "0 < x" and "x \<le> y"
  shows "round_mag x \<le> round_mag y"
proof (cases "exponent x = exponent y")
  case True
  have "x / 2 powi (exponent y - 52) \<le> y / 2 powi (exponent y - 52)"
    using assms(2) by (simp add: divide_right_mono)
  then have "round_even (x / 2 powi (exponent y - 52)) \<le> round_even (y / 2 powi (exponent y - 52))"
    by (rule round_even_mono)
  then have "(of_int (round_even (x / 2 powi (exponent y - 52))) :: real)
             \<le> of_int (round_even (y / 2 powi (exponent y - 52)))"
    by simp
  then show ?thesis
    unfolding round_mag_def True by (rule mult_right_mono) simp
next
  case False
  with exponent_mono [OF assms(2)] have less: "exponent x < exponent y" by simp
  let ?qx = "(2::real) powi (exponent x - 52)" and ?qy = "(2::real) powi (exponent y - 52)"
  have "x < 2 ^ 1024"
  proof (rule ccontr)
    assume "\<not> x < 2 ^ 1024"
    then have "exponent x = 1023" by (simp add: exponent_huge)
    with less exponent_range [of y] show False by simp
  qed
  then have "x < 2 powi (exponent x + 1)" by (rule exponent_upper)
  also have "\<dots> = 2 powi 53 * ?qx"
    by (rule pow2_53)
  finally have "x / ?qx < 2 powi 53" by (simp add: pos_divide_less_eq)
  then have "x / ?qx \<le> of_int (2 ^ 53)" by simp
  then have "round_even (x / ?qx) \<le> round_even (of_int (2 ^ 53))"
    by (rule round_even_mono)
  then have "round_even (x / ?qx) \<le> 2 ^ 53" by simp
  then have "(of_int (round_even (x / ?qx)) :: real) \<le> of_int (2 ^ 53)"
    by (simp only: of_int_le_iff)
  then have "round_mag x \<le> of_int (2 ^ 53) * ?qx"
    unfolding round_mag_def by (rule mult_right_mono) simp
  also have "\<dots> = 2 powi (exponent x + 1)"
    using pow2_53 [of "exponent x"] by simp
  also have "\<dots> \<le> 2 powi (exponent y)"
    using less by (intro power_int_increasing) simp_all
  finally have upper: "round_mag x \<le> 2 powi (exponent y)" .
  have "2 powi (- 1022) \<le> y"
  proof (rule ccontr)
    assume "\<not> 2 powi (- 1022) \<le> y"
    then have "exponent y = - 1022" by (simp add: exponent_subnormal)
    with less exponent_range [of x] show False by simp
  qed
  then have "2 powi (exponent y) \<le> y" by (rule exponent_lower)
  moreover have "2 powi (exponent y) = 2 powi 52 * ?qy"
    by (rule pow2_52)
  ultimately have "of_int (2 ^ 52) \<le> y / ?qy"
    by (simp add: pos_le_divide_eq)
  then have "round_even (of_int (2 ^ 52)) \<le> round_even (y / ?qy)"
    by (rule round_even_mono)
  then have "2 ^ 52 \<le> round_even (y / ?qy)" by simp
  then have "(of_int (2 ^ 52) :: real) \<le> of_int (round_even (y / ?qy))"
    by (simp only: of_int_le_iff)
  then have "of_int (2 ^ 52) * ?qy \<le> round_mag y"
    unfolding round_mag_def by (rule mult_right_mono) simp
  moreover have "of_int (2 ^ 52) * ?qy = 2 powi (exponent y)"
    using pow2_52 [of "exponent y"] by simp
  ultimately show ?thesis using upper by simp
qed

lemma round_mag_dyadic:
  assumes x: "x = of_int i * 2 powi j" and i: "0 < i" "i < 2 ^ 53"
    and j: "- 1074 \<le> j" and fin: "x < 2 ^ 1024"
  shows "round_mag x = x"
proof -
  let ?e = "exponent x"
  have le: "?e - 52 \<le> j"
  proof (cases "x < 2 powi (- 1022)")
    case True
    then have "?e = - 1022" by (rule exponent_subnormal)
    with j show ?thesis by simp
  next
    case False
    then have "2 powi ?e \<le> x" by (simp add: exponent_lower)
    moreover have "x < 2 powi (53 + j)"
    proof -
      have "(of_int i :: real) < of_int (2 ^ 53)" using i(2) by (simp only: of_int_less_iff)
      then have "of_int i * (2::real) powi j < of_int (2 ^ 53) * 2 powi j"
        by (rule mult_strict_right_mono) simp
      then show ?thesis using pow2_split [of 53 j] by (simp add: x)
    qed
    ultimately have "(2::real) powi ?e < 2 powi (53 + j)" by simp
    have "\<not> 53 + j \<le> ?e"
    proof
      assume "53 + j \<le> ?e"
      then have "(2::real) powi (53 + j) \<le> 2 powi ?e"
        by (intro power_int_increasing) simp_all
      with \<open>(2::real) powi ?e < 2 powi (53 + j)\<close> show False by simp
    qed
    then show ?thesis by simp
  qed
  define k where "k = nat (j - (?e - 52))"
  have jk: "j = (?e - 52) + int k" using le by (simp add: k_def)
  define q :: real where "q = 2 powi (?e - 52)"
  have qpos: "0 < q" by (simp add: q_def)
  have "(2::real) powi j = q * 2 ^ k"
    unfolding q_def by (subst jk) (simp add: pow2_split)
  with x have xq: "x = of_int i * (q * 2 ^ k)" by (simp only:)
  have quot: "x / q = of_int (i * 2 ^ k)"
    using qpos by (simp add: xq)
  have "round_mag x = of_int (round_even (x / q)) * q"
    by (simp only: round_mag_def q_def)
  also have "\<dots> = of_int (i * 2 ^ k) * q"
    by (simp only: quot round_even_of_int)
  also have "\<dots> = x" by (simp add: xq)
  finally show ?thesis .
qed

section \<open>The rounded result\<close>

lemma rnd_pos:
  "0 < x \<Longrightarrow> rnd z x = (if 2 ^ 1024 \<le> round_mag x then PosInf else Fin (round_mag x))"
  by (simp add: rnd_def Let_def inf_of_def zero_of_def)

lemma rnd_neg:
  "x < 0 \<Longrightarrow> rnd z x = (if 2 ^ 1024 \<le> round_mag (- x) then NegInf
                         else if round_mag (- x) = 0 then NegZero else Fin (- round_mag (- x)))"
  by (simp add: rnd_def Let_def inf_of_def zero_of_def)

lemma rnd_zero: "rnd z 0 = zero_of z"
  by (simp add: rnd_def)

lemma rnd_dyadic:
  assumes "x = of_int i * 2 powi j" and "i \<noteq> 0" and "\<bar>i\<bar> < 2 ^ 53"
    and "- 1074 \<le> j" and "\<bar>x\<bar> < 2 ^ 1024"
  shows "rnd z x = Fin x"
proof -
  have "\<bar>x\<bar> = of_int \<bar>i\<bar> * 2 powi j" by (simp add: assms(1) abs_mult)
  moreover have "0 < \<bar>i\<bar>" using assms(2) by simp
  ultimately have m: "round_mag \<bar>x\<bar> = \<bar>x\<bar>"
    using assms(3-5) by (rule round_mag_dyadic)
  have "x \<noteq> 0" using assms(1,2) by simp
  with m assms(5) show ?thesis
    by (auto simp: rnd_def Let_def)
qed

lemma rnd_int:
  "i \<noteq> 0 \<Longrightarrow> \<bar>i\<bar> < 2 ^ 53 \<Longrightarrow> rnd z (of_int i) = Fin (of_int i)"
proof -
  assume i: "i \<noteq> 0" "\<bar>i\<bar> < 2 ^ 53"
  have "(of_int \<bar>i\<bar> :: real) < of_int (2 ^ 53)" using i(2) by (simp only: of_int_less_iff)
  also have "\<dots> < 2 ^ 1024" by simp
  finally have "\<bar>of_int i :: real\<bar> < 2 ^ 1024" by simp
  with i show ?thesis
    using rnd_dyadic [of "of_int i" i 0 z] by simp
qed

lemma rnd_numeral:
  "numeral k < (2 ^ 53 :: int) \<Longrightarrow> rnd z (numeral k) = Fin (numeral k)"
  using rnd_int [of "numeral k" z] by simp

lemma signbit_rnd_neg: "x < 0 \<Longrightarrow> signbit (rnd z x)"
proof -
  assume "x < 0"
  moreover from this have "0 \<le> round_mag (- x)" by (simp add: round_mag_nonneg)
  ultimately show ?thesis
    by (auto simp: rnd_neg signbit_def)
qed

section \<open>Evaluating the arithmetic\<close>

lemmas num_eval =
  num_add_def num_mul_def num_div_def num_lt_def num_gt_def num_le_def
  is_inf_def is_zero_def signbit_def value_of_def inf_of_def zero_of_def rnd_numeral

lemmas lookup_eval =
  get_property_def or_empty_def element_text_def OBJECT_PROTOTYPE_METHODS_def

lemmas upper_eval = toUpperCase_def toUpperChar_def LOWER_CASE_def UPPER_CASE_def

section \<open>The order of rounded results\<close>

lemma round_even_eval:
  assumes "of_int n - 1 / 2 < y" and "y < of_int n + 1 / 2"
  shows "round_even y = n"
proof -
  have "\<bar>of_int (round_even y) - y\<bar> \<le> 1 / 2" by (rule round_even_near)
  with assms have "\<bar>(of_int (round_even y) :: real) - of_int n\<bar> < 1" by linarith
  then have "\<bar>of_int (round_even y - n) :: real\<bar> < 1" by simp
  then have "\<bar>round_even y - n\<bar> < 1"
    by (metis of_int_1 of_int_abs of_int_less_iff)
  then show ?thesis by simp
qed

lemma round_mag_eval:
  assumes "- 1022 \<le> e" and "e \<le> 1023" and "2 powi e \<le> x" and "x < 2 powi (e + 1)"
    and "of_int n - 1 / 2 < x / 2 powi (e - 52)" and "x / 2 powi (e - 52) < of_int n + 1 / 2"
  shows "round_mag x = of_int n * 2 powi (e - 52)"
proof -
  have "exponent x = e" using assms(1-4) by (rule exponent_eqI)
  moreover have "round_even (x / 2 powi (e - 52)) = n"
    using assms(5,6) by (rule round_even_eval)
  ultimately show ?thesis by (simp add: round_mag_def)
qed

lemma rnd_nonneg_cases:
  assumes "0 \<le> x"
  shows "rnd False x = PosInf \<or> (\<exists>m. 0 \<le> m \<and> rnd False x = Fin m)"
proof (cases "x = 0")
  case True
  then show ?thesis by (simp add: rnd_zero zero_of_def)
next
  case False
  with assms have "0 < x" by simp
  then show ?thesis using round_mag_nonneg [of x] by (auto simp: rnd_pos)
qed

lemma rnd_mono:
  assumes "0 \<le> x" and "x \<le> y"
  shows "num_le (rnd False x) (rnd False y)"
proof (cases "x = 0")
  case True
  from assms have "0 \<le> y" by simp
  from rnd_nonneg_cases [OF this] True show ?thesis
    by (auto simp: rnd_zero zero_of_def num_le_def num_lt_def value_of_def)
next
  case False
  with assms have pos: "0 < x" "0 < y" by simp_all
  from pos(1) assms(2) have "round_mag x \<le> round_mag y" by (rule round_mag_mono)
  with pos show ?thesis
    by (auto simp: rnd_pos num_le_def num_lt_def value_of_def)
qed

lemma rnd_neg_cases:
  assumes "x < 0"
  shows "rnd z x = NegInf \<or> rnd z x = NegZero \<or> (\<exists>m. m < 0 \<and> rnd z x = Fin m)"
proof -
  from assms have "0 \<le> round_mag (- x)" by (simp add: round_mag_nonneg)
  with assms show ?thesis by (auto simp: rnd_neg)
qed

lemma round_mag_least: "round_mag (2 powi (- 1022)) = 2 powi (- 1022)"
proof -
  have "(2::real) powi (- 1022) < 2 powi 1024"
    by (rule power_int_strict_increasing) simp_all
  then have "(2::real) powi (- 1022) < 2 ^ 1024" by simp
  then show ?thesis
    using round_mag_dyadic [of "2 powi (- 1022)" 1 "- 1022"] by simp
qed

lemma rnd_neg_normal:
  assumes "x \<le> - (2 powi (- 1022))"
  shows "rnd z x = NegInf \<or> (\<exists>m. m \<le> - (2 powi (- 1022)) \<and> rnd z x = Fin m)"
proof -
  have low: "(0::real) < 2 powi (- 1022)" by simp
  with assms have neg: "x < 0" by linarith
  from assms have "2 powi (- 1022) \<le> - x" by simp
  with low have "round_mag (2 powi (- 1022)) \<le> round_mag (- x)" by (rule round_mag_mono)
  then have "2 powi (- 1022) \<le> round_mag (- x)" by (simp only: round_mag_least)
  with low neg show ?thesis by (auto simp: rnd_neg)
qed

section \<open>The loops of the timing generator\<close>

lemma forEach_index_aux:
  "concat (map (\<lambda>(i, x). F x (int i < int (n + length xs) - 1)) (enumerate n xs)) = each_last F xs"
proof (induction F xs arbitrary: n rule: each_last.induct)
  case (1 F)
  show ?case by simp
next
  case (2 F x)
  show ?case by simp
next
  case (3 F x y ys)
  have "concat (map (\<lambda>(i, x). F x (int i < int (Suc n + length (y # ys)) - 1)) (enumerate (Suc n) (y # ys)))
        = each_last F (y # ys)"
    by (rule "3.IH")
  then show ?case by simp
qed

lemma forEach_index:
  "concat (map (\<lambda>(i, x). F x (int i < int (length xs) - 1)) (enumerate 0 xs)) = each_last F xs"
  using forEach_index_aux [of F 0 xs] by simp

lemma signal_events_each:
  "signal_events u signals =
     each_last (\<lambda>sig more. on_event u sig # (if more then [off_event (num_mul INTRA_CHAR_GAP u)] else [])) signals"
  unfolding signal_events_def on_event_def off_event_def
  using forEach_index [of "\<lambda>sig more. \<lparr>type = On,
         duration = (if sig = ''-'' then num_mul DASH_UNITS u else num_mul DOT_UNITS u),
         charIndex = None\<rparr> # (if more then [\<lparr>type = Off, duration = num_mul INTRA_CHAR_GAP u, charIndex = None\<rparr>] else [])" signals]
  by simp

lemma char_events_each:
  "char_events u fu chars =
     each_last (\<lambda>char more. if char = [] then []
        else signal_events u (split_chars char)
             @ (if more then [off_event (num_mul INTER_CHAR_GAP fu)] else [])) chars"
  unfolding char_events_def off_event_def
  using forEach_index [of "\<lambda>char more. if char = [] then []
        else signal_events u (split_chars char)
             @ (if more then [\<lparr>type = Off, duration = num_mul INTER_CHAR_GAP fu, charIndex = None\<rparr>] else [])" chars]
  by simp

lemma word_events_each:
  "word_events u fu words =
     each_last (\<lambda>word more. char_events u fu (split CHR '' '' (trim word))
             @ (if more then [off_event (num_mul WORD_GAP fu)] else [])) words"
  unfolding word_events_def off_event_def
  using forEach_index [of "\<lambda>word more. char_events u fu (split CHR '' '' (trim word))
             @ (if more then [\<lparr>type = Off, duration = num_mul WORD_GAP fu, charIndex = None\<rparr>] else [])" words]
  by simp


lemma each_last_cong:
  "(\<And>x b. x \<in> set xs \<Longrightarrow> F x b = G x b) \<Longrightarrow> each_last F xs = each_last G xs"
  by (induction F xs rule: each_last.induct) auto

lemma each_last_gaps:
  "each_last (\<lambda>x more. if more then [g] else []) xs = replicate (length xs - 1) g"
  by (induction xs rule: induct_list012) auto

lemma each_last_set:
  "e \<in> set (each_last F xs) \<Longrightarrow> \<exists>x \<in> set xs. \<exists>b. e \<in> set (F x b)"
  by (induction F xs rule: each_last.induct) auto

lemma each_last_map:
  "(\<And>x b. x \<in> set xs \<Longrightarrow> map h (F x b) = map h (G x b)) \<Longrightarrow>
   map h (each_last F xs) = map h (each_last G xs)"
  by (induction F xs rule: each_last.induct) auto

lemma each_last_filter:
  "(\<And>x b. x \<in> set xs \<Longrightarrow> filter P (F x b) = G x) \<Longrightarrow>
   filter P (each_last F xs) = concat (map G xs)"
  by (induction F xs rule: each_last.induct) auto

lemma each_last_all2:
  "(\<And>x b. x \<in> set xs \<Longrightarrow> list_all2 R (F x b) (G x b)) \<Longrightarrow>
   list_all2 R (each_last F xs) (each_last G xs)"
  by (induction F xs rule: each_last.induct) (auto intro: list_all2_appendI)

subsection \<open>split\<close>

lemma split_not_Nil [simp]: "split sep s \<noteq> []"
  by (induction s) auto

lemma length_split: "length (split sep s) = count_list s sep + 1"
proof (induction s)
  case Nil
  show ?case by simp
next
  case (Cons c cs)
  have "length (tl (split sep cs)) = length (split sep cs) - 1" by simp
  with Cons show ?case by simp
qed

lemma concat_split: "concat (split sep s) = filter (\<lambda>c. c \<noteq> sep) s"
proof (induction s)
  case Nil
  show ?case by simp
next
  case (Cons c cs)
  have "hd (split sep cs) @ concat (tl (split sep cs)) = concat (split sep cs)"
    by (cases "split sep cs") auto
  with Cons show ?case by simp
qed

lemma set_split: "w \<in> set (split sep s) \<Longrightarrow> set w \<subseteq> set s - {sep}"
proof -
  assume "w \<in> set (split sep s)"
  then have "set w \<subseteq> set (concat (split sep s))" by auto
  then show ?thesis by (auto simp: concat_split)
qed

lemma trim_white: "\<forall>c \<in> set w. isWhiteSpace c \<Longrightarrow> trim w = []"
  by (auto simp: trim_def dest: set_dropWhileD)


section \<open>The timing of SOS\<close>

text \<open>
  C8: \<open>textToMorse\<close> of SOS is \<open>... --- ...\<close>, and at 20 words per minute, with a
  Farnsworth speed that is not strictly between 0 and 20, the unit is 60 ms and the
  sequence of this code has dots of 60 ms, dashes of 180 ms, gaps of 60 ms inside a
  character and gaps of 180 ms between the characters.
\<close>

theorem sos_timing:
  assumes "wpm config = Fin 20"
    and "\<not> (num_lt (farnsworth config) (wpm config) \<and> num_gt (farnsworth config) (Fin 0))"
  shows "textToMorse ''SOS'' = ''... --- ...'' \<and>
         unitMs config = Fin 60 \<and>
         generateTimingSequence (textToMorse ''SOS'') config =
           map (\<lambda>(t, d). \<lparr>type = t, duration = Fin d, charIndex = None\<rparr>)
             [(On, 60), (Off, 60), (On, 60), (Off, 60), (On, 60), (Off, 180),
              (On, 180), (Off, 60), (On, 180), (Off, 60), (On, 180), (Off, 180),
              (On, 60), (Off, 60), (On, 60), (Off, 60), (On, 60)]"
proof -
  have code: "textToMorse ''SOS'' = ''... --- ...''"
    by (simp add: textToMorse_def upper_eval split_chars_def char_to_code_def lookup_eval
        MORSE_MAP_def MORSE_ENTRIES_def trim_def isWhiteSpace_def)
  have u: "unitMs config = Fin 60"
    using assms(1) by (simp add: unitMs_def num_eval)
  have fu: "farnsworthUnitMs config = Fin 60"
    using assms(2) u by (auto simp: farnsworthUnitMs_def)
  have "generateTimingSequence ''... --- ...'' config =
           map (\<lambda>(t, d). \<lparr>type = t, duration = Fin d, charIndex = None\<rparr>)
             [(On, 60), (Off, 60), (On, 60), (Off, 60), (On, 60), (Off, 180),
              (On, 180), (Off, 60), (On, 180), (Off, 60), (On, 180), (Off, 180),
              (On, 60), (Off, 60), (On, 60), (Off, 60), (On, 60)]"
    unfolding generateTimingSequence_def u fu
    by (simp add: word_events_each char_events_each signal_events_each on_event_def
        off_event_def split_chars_def trim_def isWhiteSpace_def DOT_UNITS_def DASH_UNITS_def
        INTRA_CHAR_GAP_def INTER_CHAR_GAP_def WORD_GAP_def num_eval)
  with code u show ?thesis by simp
qed

theorem sos_timing_witness:
  "wpm DEFAULT_CONFIG = Fin 20 \<and>
   \<not> (num_lt (farnsworth DEFAULT_CONFIG) (wpm DEFAULT_CONFIG) \<and>
      num_gt (farnsworth DEFAULT_CONFIG) (Fin 0)) \<and>
   unitMs DEFAULT_CONFIG = Fin 60 \<and>
   length (generateTimingSequence (textToMorse ''SOS'') DEFAULT_CONFIG) = 17"
proof -
  have w: "wpm DEFAULT_CONFIG = Fin 20"
    by (simp add: DEFAULT_CONFIG_def)
  have f: "\<not> (num_lt (farnsworth DEFAULT_CONFIG) (wpm DEFAULT_CONFIG) \<and>
      num_gt (farnsworth DEFAULT_CONFIG) (Fin 0))"
    by (simp add: DEFAULT_CONFIG_def num_eval)
  note r = sos_timing [OF w f]
  have "length (generateTimingSequence (textToMorse ''SOS'') DEFAULT_CONFIG) = 17"
    by (simp add: r [THEN conjunct2, THEN conjunct2])
  with w f r show ?thesis by blast
qed


section \<open>Code strings of separators only\<close>

lemma word_events_white:
  assumes "\<forall>w \<in> set words. \<forall>c \<in> set w. isWhiteSpace c"
  shows "word_events u fu words = replicate (length words - 1) (off_event (num_mul WORD_GAP fu))"
proof -
  have "each_last (\<lambda>word more. char_events u fu (split CHR '' '' (trim word))
             @ (if more then [off_event (num_mul WORD_GAP fu)] else [])) words
        = each_last (\<lambda>word more. if more then [off_event (num_mul WORD_GAP fu)] else []) words"
  proof (rule each_last_cong)
    fix x :: string and b
    assume "x \<in> set words"
    with assms have "trim x = []" by (simp add: trim_white)
    then show "char_events u fu (split CHR '' '' (trim x))
             @ (if b then [off_event (num_mul WORD_GAP fu)] else [])
           = (if b then [off_event (num_mul WORD_GAP fu)] else [])"
      by (simp add: char_events_each)
  qed
  then show ?thesis by (simp add: word_events_each each_last_gaps)
qed

lemma split_white:
  assumes "\<forall>c \<in> set morse. c = sep \<or> P c" and "w \<in> set (split sep morse)"
  shows "\<forall>c \<in> set w. P c"
proof
  fix c assume "c \<in> set w"
  with set_split [OF assms(2)] have "c \<in> set morse" "c \<noteq> sep" by auto
  with assms(1) show "P c" by auto
qed

text \<open>
  C1, as the code has it: for every configuration the empty code string gives the empty
  sequence, of total duration zero. A code string of separator tokens and white space
  only gives no On event but one word gap of 7 spacing units for each separator token,
  so it gives the empty sequence exactly when it holds no separator token.
\<close>

theorem separators_only:
  "generateTimingSequence [] config = [] \<and>
   totalDurationMs (generateTimingSequence [] config) = Fin 0 \<and>
   ((\<forall>c \<in> set morse. c = CHR ''/'' \<or> isWhiteSpace c) \<longrightarrow>
      generateTimingSequence morse config =
        replicate (count_list morse CHR ''/'')
          \<lparr>type = Off, duration = num_mul WORD_GAP (farnsworthUnitMs config), charIndex = None\<rparr>)"
proof -
  have empty: "generateTimingSequence [] config = []"
    by (simp add: generateTimingSequence_def word_events_each char_events_each trim_def)
  have "generateTimingSequence morse config =
        replicate (count_list morse CHR ''/'')
          \<lparr>type = Off, duration = num_mul WORD_GAP (farnsworthUnitMs config), charIndex = None\<rparr>"
    if only: "\<forall>c \<in> set morse. c = CHR ''/'' \<or> isWhiteSpace c"
  proof -
    have "\<forall>w \<in> set (split CHR ''/'' morse). \<forall>c \<in> set w. isWhiteSpace c"
      using split_white [OF only] by blast
    then have "word_events (unitMs config) (farnsworthUnitMs config) (split CHR ''/'' morse)
        = replicate (length (split CHR ''/'' morse) - 1)
            (off_event (num_mul WORD_GAP (farnsworthUnitMs config)))"
      by (rule word_events_white)
    then show ?thesis
      by (simp add: generateTimingSequence_def length_split off_event_def)
  qed
  with empty show ?thesis by (simp add: totalDurationMs_def)
qed

theorem separators_only_witness:
  "list_all (\<lambda>c. c = CHR ''/'' \<or> isWhiteSpace c) '' / / '' \<and>
   generateTimingSequence '' / / '' DEFAULT_CONFIG =
     [\<lparr>type = Off, duration = Fin 420, charIndex = None\<rparr>,
      \<lparr>type = Off, duration = Fin 420, charIndex = None\<rparr>]"
proof -
  have h: "\<forall>c \<in> set '' / / ''. c = CHR ''/'' \<or> isWhiteSpace c"
    by (simp add: isWhiteSpace_def)
  have fu: "num_mul WORD_GAP (farnsworthUnitMs DEFAULT_CONFIG) = Fin 420"
    by (simp add: farnsworthUnitMs_def unitMs_def DEFAULT_CONFIG_def WORD_GAP_def num_eval)
  from separators_only [of DEFAULT_CONFIG "'' / / ''"] h
  have "generateTimingSequence '' / / '' DEFAULT_CONFIG =
        replicate (count_list '' / / '' CHR ''/'')
          \<lparr>type = Off, duration = num_mul WORD_GAP (farnsworthUnitMs DEFAULT_CONFIG), charIndex = None\<rparr>"
    by blast
  with h fu show ?thesis by (simp add: numeral_2_eq_2 list_all_iff)
qed

text \<open>
  C1 as stated fails: the code string of one separator token gives one word gap.
\<close>

theorem separator_counterexample:
  "num_gt (wpm DEFAULT_CONFIG) (Fin 0) \<and>
   generateTimingSequence ''/'' DEFAULT_CONFIG =
     [\<lparr>type = Off, duration = Fin 420, charIndex = None\<rparr>]"
  by (simp add: generateTimingSequence_def word_events_each char_events_each trim_def
      off_event_def farnsworthUnitMs_def unitMs_def DEFAULT_CONFIG_def WORD_GAP_def num_eval)


section \<open>The On events\<close>

lemma signal_events_on:
  "filter (\<lambda>e. type e = On) (signal_events u signals) = map (on_event u) signals"
proof -
  have "filter (\<lambda>e. type e = On)
          (each_last (\<lambda>sig more. on_event u sig
             # (if more then [off_event (num_mul INTRA_CHAR_GAP u)] else [])) signals)
        = concat (map (\<lambda>sig. [on_event u sig]) signals)"
    by (rule each_last_filter) (simp add: on_event_def off_event_def)
  then show ?thesis by (simp add: signal_events_each concat_map_singleton)
qed

lemma char_events_on:
  "filter (\<lambda>e. type e = On) (char_events u fu chars)
     = map (on_event u) (split_chars (concat chars))"
proof -
  have "filter (\<lambda>e. type e = On)
          (each_last (\<lambda>char more. if char = [] then []
             else signal_events u (split_chars char)
                  @ (if more then [off_event (num_mul INTER_CHAR_GAP fu)] else [])) chars)
        = concat (map (\<lambda>char. map (on_event u) (split_chars char)) chars)"
    by (rule each_last_filter) (simp add: signal_events_on off_event_def split_chars_def)
  then show ?thesis by (simp add: char_events_each split_chars_def map_concat comp_def)
qed

lemma word_events_on:
  "filter (\<lambda>e. type e = On) (word_events u fu words)
     = map (on_event u)
         (split_chars (concat (map (\<lambda>word. filter (\<lambda>c. c \<noteq> CHR '' '') (trim word)) words)))"
proof -
  have "filter (\<lambda>e. type e = On)
          (each_last (\<lambda>word more. char_events u fu (split CHR '' '' (trim word))
             @ (if more then [off_event (num_mul WORD_GAP fu)] else [])) words)
        = concat (map (\<lambda>word. map (on_event u)
            (split_chars (filter (\<lambda>c. c \<noteq> CHR '' '') (trim word)))) words)"
    by (rule each_last_filter) (simp add: char_events_on off_event_def concat_split)
  then show ?thesis by (simp add: word_events_each split_chars_def map_concat comp_def)
qed

lemma on_event_duration:
  "duration (on_event u [c]) = (if c = CHR ''-'' then num_mul (Fin 3) u else num_mul (Fin 1) u)"
  by (simp add: on_event_def DASH_UNITS_def DOT_UNITS_def)

text \<open>
  C10: for a configuration with \<open>wpm > 0\<close>, the On events of the sequence are, in
  order, one for each symbol of the code string (a character other than the space of a
  trimmed word), of duration \<open>3 * (1200 / wpm)\<close> for the symbol \<open>-\<close> and
  \<open>1 * (1200 / wpm)\<close> for any other symbol whatever, the product and the quotient
  being those of the source's arithmetic.
\<close>

theorem on_durations:
  assumes "num_gt (wpm config) (Fin 0)"
  shows "map duration (filter (\<lambda>e. type e = On) (generateTimingSequence morse config))
         = map (\<lambda>sig. if sig = CHR ''-'' then num_mul (Fin 3) (num_div (Fin 1200) (wpm config))
                       else num_mul (Fin 1) (num_div (Fin 1200) (wpm config)))
             (concat (map (\<lambda>word. filter (\<lambda>c. c \<noteq> CHR '' '') (trim word))
                          (split CHR ''/'' morse)))"
  by (simp add: generateTimingSequence_def word_events_on unitMs_def split_chars_def
      comp_def on_event_duration)

theorem on_durations_witness:
  "num_gt (wpm DEFAULT_CONFIG) (Fin 0) \<and>
   map duration (filter (\<lambda>e. type e = On) (generateTimingSequence ''.x- /-'' DEFAULT_CONFIG))
     = [Fin 60, Fin 60, Fin 180, Fin 180]"
proof -
  have w: "num_gt (wpm DEFAULT_CONFIG) (Fin 0)" by (simp add: DEFAULT_CONFIG_def num_eval)
  have d: "wpm DEFAULT_CONFIG = Fin 20" by (simp add: DEFAULT_CONFIG_def)
  show ?thesis
    using w on_durations [OF w, of "''.x- /-''"]
    by (simp add: d trim_def isWhiteSpace_def num_eval)
qed


section \<open>Configurations outside the valid range\<close>

lemma signal_events_types:
  "map type (signal_events u signals) = map type (signal_events u' signals)"
  unfolding signal_events_each
  by (rule each_last_map) (simp add: on_event_def off_event_def)

lemma char_events_types:
  "map type (char_events u fu chars) = map type (char_events u' fu' chars)"
  unfolding char_events_each
  by (rule each_last_map) (simp add: off_event_def signal_events_types [of u _ u'])

lemma word_events_types:
  "map type (word_events u fu words) = map type (word_events u' fu' words)"
  unfolding word_events_each
  by (rule each_last_map) (simp add: off_event_def char_events_types [of u fu _ u' fu'])

lemma multiple_signbit:
  assumes "0 < k" and "d = NegInf \<or> d = NegZero \<or> (\<exists>m. m < 0 \<and> d = Fin m)"
  shows "signbit (num_mul (Fin k) d)"
proof -
  have "signbit (num_mul (Fin k) (Fin m))" if "m < 0" for m
  proof -
    from that assms(1) have "k * m < 0" by (simp add: mult_pos_neg)
    then have "signbit (rnd True (k * m))" by (rule signbit_rnd_neg)
    with that assms(1) show ?thesis
      by (simp add: num_mul_def is_inf_def signbit_def value_of_def)
  qed
  with assms show ?thesis
    by (auto simp: num_mul_def is_inf_def is_zero_def signbit_def value_of_def inf_of_def
        rnd_zero zero_of_def)
qed

lemma multiple_negative:
  assumes "1 \<le> k"
    and "d = NegInf \<or> (\<exists>m. m \<le> - (2 powi (- 1022)) \<and> d = Fin m)"
  shows "num_lt (num_mul (Fin k) d) (Fin 0)"
proof -
  define q :: real where "q = 2 powi (- 1022)"
  have low: "0 < q" by (simp add: q_def)
  from assms(2) show ?thesis
  proof
    assume "d = NegInf"
    with assms(1) show ?thesis
      by (simp add: num_mul_def is_inf_def is_zero_def signbit_def inf_of_def num_lt_def)
  next
    assume "\<exists>m. m \<le> - (2 powi (- 1022)) \<and> d = Fin m"
    then obtain m where m: "m \<le> - q" and d: "d = Fin m" by (auto simp: q_def)
    from m low have neg: "m < 0" by linarith
    with assms(1) have "k * m \<le> 1 * m" by (intro mult_right_mono_neg) simp_all
    with m have "k * m \<le> - q" by simp
    then have "k * m \<le> - (2 powi (- 1022))" by (simp only: q_def)
    then have "rnd True (k * m) = NegInf \<or>
               (\<exists>r. r \<le> - (2 powi (- 1022)) \<and> rnd True (k * m) = Fin r)"
      by (rule rnd_neg_normal)
    then have "rnd True (k * m) = NegInf \<or> (\<exists>r. r \<le> - q \<and> rnd True (k * m) = Fin r)"
      by (simp only: q_def)
    with low have "num_lt (rnd True (k * m)) (Fin 0)"
      by (auto simp: num_lt_def value_of_def)
    with neg assms(1) show ?thesis
      by (simp add: d num_mul_def is_inf_def signbit_def value_of_def)
  qed
qed

lemma unit_of_negative:
  assumes "w < 0"
  shows "num_div (Fin 1200) (Fin w) = rnd True (1200 / w)"
  using assms by (simp add: num_div_def is_inf_def is_zero_def signbit_def value_of_def)

lemma unit_of_negative_double:
  fixes w :: real
  assumes "w < 0" and "- (2 ^ 1024) < w"
  shows "1200 / w \<le> - (2 powi (- 1022))"
proof -
  define q :: real where "q = 2 powi (- 1022)"
  have "q * 2 ^ 1024 = 4"
    unfolding q_def using pow2_split [of "- 1022" 1024] by simp
  then have four: "q * 2 ^ 1024 \<le> 1200" by simp
  have pos: "0 \<le> q" by (simp add: q_def)
  from assms(2) have "- w \<le> 2 ^ 1024" by simp
  then have "q * (- w) \<le> q * 2 ^ 1024" using pos by (rule mult_left_mono)
  then have "q * (- w) \<le> 1200" using four by (rule order_trans)
  moreover from assms(1) have "0 < - w" by simp
  ultimately have "q \<le> 1200 / (- w)" by (simp only: pos_le_divide_eq)
  then have "1200 / w \<le> - q" by simp
  then show ?thesis by (simp only: q_def)
qed

lemma signal_events_event:
  assumes "e \<in> set (signal_events u signals)"
  shows "(\<exists>sig. e = on_event u sig) \<or> e = off_event (num_mul INTRA_CHAR_GAP u)"
proof -
  from assms obtain sig b
    where "e \<in> set (on_event u sig # (if b then [off_event (num_mul INTRA_CHAR_GAP u)] else []))"
    unfolding signal_events_each by (blast dest: each_last_set)
  then show ?thesis by (auto split: if_splits)
qed

lemma char_events_event:
  assumes "e \<in> set (char_events u fu chars)"
  shows "(\<exists>sig. e = on_event u sig) \<or> e = off_event (num_mul INTRA_CHAR_GAP u) \<or>
         e = off_event (num_mul INTER_CHAR_GAP fu)"
proof -
  from assms obtain char b
    where "e \<in> set (if char = [] then []
        else signal_events u (split_chars char)
             @ (if b then [off_event (num_mul INTER_CHAR_GAP fu)] else []))"
    unfolding char_events_each by (blast dest: each_last_set)
  then show ?thesis by (auto split: if_splits dest: signal_events_event)
qed

lemma word_events_event:
  assumes "e \<in> set (word_events u fu words)"
  shows "(\<exists>sig. e = on_event u sig) \<or> e = off_event (num_mul INTRA_CHAR_GAP u) \<or>
         e = off_event (num_mul INTER_CHAR_GAP fu) \<or> e = off_event (num_mul WORD_GAP fu)"
proof -
  from assms obtain word b
    where "e \<in> set (char_events u fu (split CHR '' '' (trim word))
             @ (if b then [off_event (num_mul WORD_GAP fu)] else []))"
    unfolding word_events_each by (blast dest: each_last_set)
  then show ?thesis by (auto split: if_splits dest: char_events_event)
qed

lemma num_lt_trans: "num_lt a b \<Longrightarrow> num_lt b c \<Longrightarrow> num_lt a c"
  by (auto simp: num_lt_def split: if_splits)

lemma spacing_unit_nonpositive:
  assumes "num_le (wpm config) (Fin 0)"
  shows "farnsworthUnitMs config = unitMs config"
proof -
  have "\<not> (num_lt (farnsworth config) (wpm config) \<and> num_gt (farnsworth config) (Fin 0))"
  proof
    assume "num_lt (farnsworth config) (wpm config) \<and> num_gt (farnsworth config) (Fin 0)"
    then have "num_lt (Fin 0) (wpm config)"
      unfolding num_gt_def by (blast intro: num_lt_trans)
    with assms show False by (simp add: num_le_def)
  qed
  then show ?thesis by (auto simp: farnsworthUnitMs_def)
qed

text \<open>
  C3, as the code has it: a configuration with \<open>wpm <= 0\<close> is not rejected. The
  generator returns the events of the same kinds as for a valid configuration; every
  event lasts \<open>1200 / wpm\<close> or 3 or 7 times that (an On event 1 or 3 times), as the
  source's arithmetic has them: plus infinity when \<open>wpm\<close> is 0, minus infinity when
  \<open>wpm\<close> is the negative zero, the negative zero when \<open>wpm\<close> is minus infinity, and for
  a negative \<open>wpm\<close> a value of negative sign, which is a negative number or minus
  infinity for every \<open>wpm\<close> in the range of the doubles.
\<close>

theorem nonpositive_wpm_not_rejected:
  assumes "num_le (wpm config) (Fin 0)"
  shows "map type (generateTimingSequence morse config)
           = map type (generateTimingSequence morse DEFAULT_CONFIG) \<and>
         (\<forall>e \<in> set (generateTimingSequence morse config).
            (duration e = num_mul (Fin 1) (num_div (Fin 1200) (wpm config)) \<or>
             duration e = num_mul (Fin 3) (num_div (Fin 1200) (wpm config)) \<or>
             type e = Off \<and>
               duration e = num_mul (Fin 7) (num_div (Fin 1200) (wpm config))) \<and>
            (if wpm config = Fin 0 then duration e = PosInf
             else if wpm config = NegZero then duration e = NegInf
             else if wpm config = NegInf then duration e = NegZero
             else signbit (duration e) \<and>
                  (num_lt (Fin (- (2 ^ 1024))) (wpm config) \<longrightarrow>
                     num_lt (duration e) (Fin 0))))"
proof -
  let ?u = "num_div (Fin 1200) (wpm config)"
  have kinds: "map type (generateTimingSequence morse config)
           = map type (generateTimingSequence morse DEFAULT_CONFIG)"
    unfolding generateTimingSequence_def by (rule word_events_types)
  have sign: "if wpm config = Fin 0 then num_mul (Fin k) ?u = PosInf
        else if wpm config = NegZero then num_mul (Fin k) ?u = NegInf
        else if wpm config = NegInf then num_mul (Fin k) ?u = NegZero
        else signbit (num_mul (Fin k) ?u) \<and>
             (num_lt (Fin (- (2 ^ 1024))) (wpm config) \<longrightarrow>
                num_lt (num_mul (Fin k) ?u) (Fin 0))"
    if k: "1 \<le> k" for k
  proof (cases "wpm config")
    case NaN
    with assms show ?thesis by (simp add: num_le_def)
  next
    case NegInf
    with k show ?thesis
      by (simp add: num_div_def num_mul_def is_inf_def is_zero_def signbit_def value_of_def
          zero_of_def rnd_zero)
  next
    case NegZero
    with k show ?thesis
      by (simp add: num_div_def num_mul_def is_inf_def is_zero_def signbit_def value_of_def
          inf_of_def)
  next
    case PosInf
    with assms show ?thesis by (simp add: num_le_def num_lt_def value_of_def)
  next
    case (Fin w)
    with assms have w: "w \<le> 0" by (simp add: num_le_def num_lt_def value_of_def)
    show ?thesis
    proof (cases "w = 0")
      case True
      with Fin k show ?thesis
        by (simp add: num_div_def num_mul_def is_inf_def is_zero_def signbit_def value_of_def
            inf_of_def)
    next
      case False
      with w have neg: "w < 0" by simp
      then have q: "1200 / w < 0" by (simp add: divide_pos_neg)
      have u: "?u = rnd True (1200 / w)" using neg Fin by (simp add: unit_of_negative)
      from k have pos: "0 < k" by simp
      have "signbit (num_mul (Fin k) ?u)"
        unfolding u using pos rnd_neg_cases [OF q] by (rule multiple_signbit)
      moreover have "num_lt (num_mul (Fin k) ?u) (Fin 0)"
        if "num_lt (Fin (- (2 ^ 1024))) (wpm config)"
      proof -
        from that Fin have "- (2 ^ 1024) < w" by (simp add: num_lt_def value_of_def)
        with neg have "1200 / w \<le> - (2 powi (- 1022))" by (rule unit_of_negative_double)
        then have "rnd True (1200 / w) = NegInf \<or>
                   (\<exists>m. m \<le> - (2 powi (- 1022)) \<and> rnd True (1200 / w) = Fin m)"
          by (rule rnd_neg_normal)
        with k show ?thesis unfolding u by (rule multiple_negative)
      qed
      ultimately show ?thesis using Fin False by simp
    qed
  qed
  have fu: "farnsworthUnitMs config = ?u"
    using assms by (simp add: spacing_unit_nonpositive unitMs_def)
  have "(duration e = num_mul (Fin 1) ?u \<or> duration e = num_mul (Fin 3) ?u \<or>
         type e = Off \<and> duration e = num_mul (Fin 7) ?u) \<and>
        (if wpm config = Fin 0 then duration e = PosInf
         else if wpm config = NegZero then duration e = NegInf
         else if wpm config = NegInf then duration e = NegZero
         else signbit (duration e) \<and>
              (num_lt (Fin (- (2 ^ 1024))) (wpm config) \<longrightarrow> num_lt (duration e) (Fin 0)))"
    if e: "e \<in> set (generateTimingSequence morse config)" for e
  proof -
    from e have "e \<in> set (word_events ?u ?u (split CHR ''/'' morse))"
      by (simp add: generateTimingSequence_def fu unitMs_def)
    then have "(\<exists>sig. e = on_event ?u sig) \<or> e = off_event (num_mul INTRA_CHAR_GAP ?u) \<or>
         e = off_event (num_mul INTER_CHAR_GAP ?u) \<or> e = off_event (num_mul WORD_GAP ?u)"
      by (rule word_events_event)
    then have "duration e = num_mul (Fin 1) ?u \<or> duration e = num_mul (Fin 3) ?u \<or>
         type e = Off \<and> duration e = num_mul (Fin 7) ?u"
      unfolding on_event_def off_event_def DASH_UNITS_def DOT_UNITS_def
        INTRA_CHAR_GAP_def INTER_CHAR_GAP_def WORD_GAP_def
      by (auto split: if_splits)
    with sign [of 1] sign [of 3] sign [of 7] show ?thesis by auto
  qed
  with kinds show ?thesis by blast
qed

theorem nonpositive_wpm_not_rejected_witness:
  "num_le (wpm (DEFAULT_CONFIG\<lparr>wpm := Fin (- 20)\<rparr>)) (Fin 0) \<and>
   list_all (\<lambda>e. num_lt (duration e) (Fin 0))
     (generateTimingSequence ''-. -/.'' (DEFAULT_CONFIG\<lparr>wpm := Fin (- 20)\<rparr>))"
proof -
  have w: "num_le (wpm (DEFAULT_CONFIG\<lparr>wpm := Fin (- 20)\<rparr>)) (Fin 0)"
    by (simp add: num_le_def num_lt_def value_of_def)
  have b: "num_lt (Fin (- (2 ^ 1024))) (wpm (DEFAULT_CONFIG\<lparr>wpm := Fin (- 20)\<rparr>))"
    by (simp add: num_lt_def value_of_def)
  have "num_lt (duration e) (Fin 0)"
    if "e \<in> set (generateTimingSequence ''-. -/.'' (DEFAULT_CONFIG\<lparr>wpm := Fin (- 20)\<rparr>))"
    for e
    using nonpositive_wpm_not_rejected [OF w, of "''-. -/.''"] that b by auto
  then have "list_all (\<lambda>e. num_lt (duration e) (Fin 0))
     (generateTimingSequence ''-. -/.'' (DEFAULT_CONFIG\<lparr>wpm := Fin (- 20)\<rparr>))"
    by (simp add: list_all_iff)
  with w show ?thesis by blast
qed

text \<open>
  C3 as stated fails: with \<open>wpm = 0\<close> the generator raises no error and returns an
  event of infinite duration.
\<close>

theorem zero_wpm_counterexample:
  "generateTimingSequence ''.'' (DEFAULT_CONFIG\<lparr>wpm := Fin 0\<rparr>)
     = [\<lparr>type = On, duration = PosInf, charIndex = None\<rparr>]"
  by (simp add: generateTimingSequence_def word_events_each char_events_each
      signal_events_each trim_def isWhiteSpace_def split_chars_def on_event_def
      unitMs_def DOT_UNITS_def num_eval)


section \<open>The Farnsworth speed\<close>

lemma farnsworthUnitMs_equal_speeds:
  "farnsworthUnitMs (config\<lparr>farnsworth := wpm config\<rparr>) = unitMs config"
  by (simp add: farnsworthUnitMs_def unitMs_def num_lt_def)

lemma unitMs_farnsworth_update: "unitMs (config\<lparr>farnsworth := x\<rparr>) = unitMs config"
  by (simp add: unitMs_def)

lemma signal_events_all2:
  assumes "R (\<lparr>type = Off, duration = num_mul INTRA_CHAR_GAP u, charIndex = None\<rparr>)
             (\<lparr>type = Off, duration = num_mul INTRA_CHAR_GAP u, charIndex = None\<rparr>)"
    and "\<And>d. R \<lparr>type = On, duration = d, charIndex = None\<rparr>
               \<lparr>type = On, duration = d, charIndex = None\<rparr>"
  shows "list_all2 R (signal_events u signals) (signal_events u signals)"
  unfolding signal_events_each
  by (rule each_last_all2) (use assms in \<open>simp add: on_event_def off_event_def\<close>)

lemma char_events_all2:
  assumes "\<And>signals. list_all2 R (signal_events u signals) (signal_events u signals)"
    and "R (off_event (num_mul INTER_CHAR_GAP fu)) (off_event (num_mul INTER_CHAR_GAP fu'))"
  shows "list_all2 R (char_events u fu chars) (char_events u fu' chars)"
  unfolding char_events_each
  by (rule each_last_all2) (use assms in \<open>auto intro!: list_all2_appendI\<close>)

lemma word_events_all2:
  assumes "\<And>chars. list_all2 R (char_events u fu chars) (char_events u fu' chars)"
    and "R (off_event (num_mul WORD_GAP fu)) (off_event (num_mul WORD_GAP fu'))"
  shows "list_all2 R (word_events u fu words) (word_events u fu' words)"
  unfolding word_events_each
  by (rule each_last_all2) (use assms in \<open>auto intro!: list_all2_appendI\<close>)

text \<open>
  The two quotients \<open>1200 / wpm\<close> and \<open>1200 / farnsworth\<close> for \<open>0 < farnsworth < wpm\<close>
  are the roundings of two exact quotients in their order, and so are their multiples.
\<close>

lemma spacing_units:
  assumes "num_lt (Fin 0) f" and "num_lt f w"
  shows "\<exists>x y. 0 \<le> x \<and> x \<le> y \<and> num_div (Fin 1200) w = rnd False x \<and>
               num_div (Fin 1200) f = rnd False y"
proof -
  from assms obtain r where f: "f = Fin r" and r: "0 < r"
    by (cases f) (auto simp: num_lt_def value_of_def split: if_splits)
  have fu: "num_div (Fin 1200) f = rnd False (1200 / r)"
    using r by (simp add: f num_div_def is_inf_def is_zero_def signbit_def value_of_def)
  show ?thesis
  proof (cases w)
    case (Fin s)
    with assms(2) f have s: "r < s" by (simp add: num_lt_def value_of_def)
    with r have "num_div (Fin 1200) w = rnd False (1200 / s)"
      by (simp add: Fin num_div_def is_inf_def is_zero_def signbit_def value_of_def)
    moreover from r s have "1200 / s \<le> 1200 / r" by (simp add: frac_le)
    moreover from r s have "0 \<le> 1200 / s" by simp
    ultimately show ?thesis using fu by blast
  next
    case PosInf
    then have "num_div (Fin 1200) w = rnd False 0"
      by (simp add: num_div_def is_inf_def signbit_def rnd_zero)
    moreover from r have "0 \<le> 1200 / r" by simp
    ultimately show ?thesis using fu by blast
  qed (use assms f in \<open>simp_all add: num_lt_def value_of_def\<close>)
qed

lemma multiple_mono:
  assumes "0 < k" and "0 \<le> x" and "x \<le> y"
  shows "num_le (num_mul (Fin k) (rnd False x)) (num_mul (Fin k) (rnd False y))"
proof -
  from assms have y: "0 \<le> y" by simp
  have mul: "num_mul (Fin k) (Fin m) = rnd False (k * m)" if "0 \<le> m" for m
    using that assms(1) by (simp add: num_mul_def is_inf_def signbit_def value_of_def)
  have inf: "num_mul (Fin k) PosInf = PosInf"
    using assms(1) by (simp add: num_mul_def is_inf_def is_zero_def signbit_def inf_of_def)
  have top: "num_le (rnd False z) PosInf" if "0 \<le> z" for z
    using rnd_nonneg_cases [OF that] by (auto simp: num_le_def num_lt_def)
  from rnd_nonneg_cases [OF y] show ?thesis
  proof
    assume yi: "rnd False y = PosInf"
    from rnd_nonneg_cases [OF assms(2)] show ?thesis
    proof
      assume "rnd False x = PosInf"
      with yi inf show ?thesis by (simp add: num_le_def num_lt_def)
    next
      assume "\<exists>m. 0 \<le> m \<and> rnd False x = Fin m"
      then obtain m where m: "0 \<le> m" "rnd False x = Fin m" by blast
      from m(1) assms(1) have "0 \<le> k * m" by simp
      then show ?thesis unfolding yi inf m(2) mul [OF m(1)] by (rule top)
    qed
  next
    assume "\<exists>m. 0 \<le> m \<and> rnd False y = Fin m"
    then obtain my where my: "0 \<le> my" "rnd False y = Fin my" by blast
    from rnd_mono [OF assms(2,3)] my(2) rnd_nonneg_cases [OF assms(2)]
    obtain mx where mx: "0 \<le> mx" "rnd False x = Fin mx" "mx \<le> my"
      by (auto simp: num_le_def num_lt_def value_of_def)
    from mx(1,3) assms(1) have "0 \<le> k * mx" "k * mx \<le> k * my" by simp_all
    then have "num_le (rnd False (k * mx)) (rnd False (k * my))" by (rule rnd_mono)
    then show ?thesis by (simp only: mx(2) my(2) mul [OF mx(1)] mul [OF my(1)])
  qed
qed

lemma spacing_gap_mono:
  assumes "num_lt (Fin 0) f" and "num_lt f w" and "0 < k"
  shows "num_le (num_mul (Fin k) (num_div (Fin 1200) w))
           (num_mul (Fin k) (num_div (Fin 1200) f))"
proof -
  from spacing_units [OF assms(1,2)] obtain x y
    where "0 \<le> x" "x \<le> y" "num_div (Fin 1200) w = rnd False x"
      "num_div (Fin 1200) f = rnd False y"
    by blast
  with multiple_mono [OF assms(3), of x y] show ?thesis by simp
qed

text \<open>
  C5, as the code has it: let \<open>0 < farnsworth < wpm\<close>. The spacing unit is
  \<open>1200 / farnsworth\<close>, and the sequence is the one of the generator's loops run with
  the unit \<open>1200 / wpm\<close> and this spacing unit. It has the events of the sequence made
  with \<open>farnsworth = wpm\<close>, one for one and of the same kinds. An On event and a gap
  inside a character (1 unit of \<open>1200 / wpm\<close>) last the same in both; a gap between
  characters (3 units) and a gap between words (7 units) last 3 and 7 times
  \<open>1200 / farnsworth\<close>, which is never shorter than 3 and 7 times \<open>1200 / wpm\<close>, the
  quotients and the products being those of the source's arithmetic. When
  \<open>farnsworth\<close> is not strictly between 0 and \<open>wpm\<close>, the spacing unit is the unit of
  \<open>wpm\<close> and the sequence is the one made with \<open>farnsworth = wpm\<close>.
\<close>

theorem farnsworth_gaps:
  "(num_lt (Fin 0) (farnsworth config) \<and> num_lt (farnsworth config) (wpm config) \<longrightarrow>
      farnsworthUnitMs config = num_div (Fin 1200) (farnsworth config) \<and>
      generateTimingSequence morse config
        = word_events (num_div (Fin 1200) (wpm config))
            (num_div (Fin 1200) (farnsworth config)) (split CHR ''/'' morse) \<and>
      list_all2
        (\<lambda>e e'. type e = type e' \<and>
           (type e' = On \<longrightarrow> duration e = duration e') \<and>
           (type e' = Off \<longrightarrow>
              duration e' = num_mul (Fin 1) (num_div (Fin 1200) (wpm config)) \<and>
                duration e = duration e' \<or>
              duration e' = num_mul (Fin 3) (num_div (Fin 1200) (wpm config)) \<and>
                duration e = num_mul (Fin 3) (num_div (Fin 1200) (farnsworth config)) \<and>
                num_le (duration e') (duration e) \<or>
              duration e' = num_mul (Fin 7) (num_div (Fin 1200) (wpm config)) \<and>
                duration e = num_mul (Fin 7) (num_div (Fin 1200) (farnsworth config)) \<and>
                num_le (duration e') (duration e)))
        (generateTimingSequence morse config)
        (generateTimingSequence morse (config\<lparr>farnsworth := wpm config\<rparr>))) \<and>
   (\<not> (num_lt (farnsworth config) (wpm config) \<and> num_gt (farnsworth config) (Fin 0)) \<longrightarrow>
      farnsworthUnitMs config = unitMs config \<and>
      generateTimingSequence morse config
        = generateTimingSequence morse (config\<lparr>farnsworth := wpm config\<rparr>))"
proof (intro conjI impI)
  assume "\<not> (num_lt (farnsworth config) (wpm config) \<and> num_gt (farnsworth config) (Fin 0))"
  then show fu: "farnsworthUnitMs config = unitMs config"
    by (auto simp: farnsworthUnitMs_def)
  then show "generateTimingSequence morse config
        = generateTimingSequence morse (config\<lparr>farnsworth := wpm config\<rparr>)"
    by (simp add: generateTimingSequence_def farnsworthUnitMs_equal_speeds
        unitMs_farnsworth_update)
next
  let ?u = "num_div (Fin 1200) (wpm config)"
  let ?fu = "num_div (Fin 1200) (farnsworth config)"
  let ?R = "\<lambda>e e'. type e = type e' \<and>
           (type e' = On \<longrightarrow> duration e = duration e') \<and>
           (type e' = Off \<longrightarrow>
              duration e' = num_mul (Fin 1) ?u \<and> duration e = duration e' \<or>
              duration e' = num_mul (Fin 3) ?u \<and> duration e = num_mul (Fin 3) ?fu \<and>
                num_le (duration e') (duration e) \<or>
              duration e' = num_mul (Fin 7) ?u \<and> duration e = num_mul (Fin 7) ?fu \<and>
                num_le (duration e') (duration e))"
  assume a: "num_lt (Fin 0) (farnsworth config) \<and> num_lt (farnsworth config) (wpm config)"
  have u: "unitMs config = ?u"
    by (simp add: unitMs_def)
  from a show fu: "farnsworthUnitMs config = ?fu"
    by (simp add: farnsworthUnitMs_def num_gt_def)
  with u show "generateTimingSequence morse config
        = word_events ?u ?fu (split CHR ''/'' morse)"
    by (simp add: generateTimingSequence_def)
  from a have three: "num_le (num_mul (Fin 3) ?u) (num_mul (Fin 3) ?fu)"
    by (intro spacing_gap_mono) simp_all
  from a have seven: "num_le (num_mul (Fin 7) ?u) (num_mul (Fin 7) ?fu)"
    by (intro spacing_gap_mono) simp_all
  have sig: "list_all2 ?R (signal_events ?u signals) (signal_events ?u signals)" for signals
    by (rule signal_events_all2) (simp_all add: INTRA_CHAR_GAP_def)
  have chr: "list_all2 ?R (char_events ?u ?fu chars) (char_events ?u ?u chars)" for chars
    by (rule char_events_all2) (use sig three in \<open>simp_all add: off_event_def INTER_CHAR_GAP_def\<close>)
  have "list_all2 ?R (word_events ?u ?fu (split CHR ''/'' morse))
               (word_events ?u ?u (split CHR ''/'' morse))"
    by (rule word_events_all2) (use chr seven in \<open>simp_all add: off_event_def WORD_GAP_def\<close>)
  then show "list_all2 ?R (generateTimingSequence morse config)
        (generateTimingSequence morse (config\<lparr>farnsworth := wpm config\<rparr>))"
    by (simp add: generateTimingSequence_def farnsworthUnitMs_equal_speeds
        unitMs_farnsworth_update u fu)
qed

theorem farnsworth_gaps_witness:
  "num_lt (Fin 0) (farnsworth (DEFAULT_CONFIG\<lparr>farnsworth := Fin 10\<rparr>)) \<and>
   num_lt (farnsworth (DEFAULT_CONFIG\<lparr>farnsworth := Fin 10\<rparr>))
     (wpm (DEFAULT_CONFIG\<lparr>farnsworth := Fin 10\<rparr>)) \<and>
   farnsworthUnitMs (DEFAULT_CONFIG\<lparr>farnsworth := Fin 10\<rparr>) = Fin 120 \<and>
   map duration (generateTimingSequence ''.- ./.'' (DEFAULT_CONFIG\<lparr>farnsworth := Fin 10\<rparr>))
     = [Fin 60, Fin 60, Fin 180, Fin 360, Fin 60, Fin 840, Fin 60] \<and>
   map duration (generateTimingSequence ''.- ./.'' DEFAULT_CONFIG)
     = [Fin 60, Fin 60, Fin 180, Fin 180, Fin 60, Fin 420, Fin 60] \<and>
   \<not> (num_lt (farnsworth DEFAULT_CONFIG) (wpm DEFAULT_CONFIG) \<and>
      num_gt (farnsworth DEFAULT_CONFIG) (Fin 0)) \<and>
   farnsworthUnitMs DEFAULT_CONFIG = unitMs DEFAULT_CONFIG \<and>
   generateTimingSequence ''.- ./.'' DEFAULT_CONFIG
     = generateTimingSequence ''.- ./.''
         (DEFAULT_CONFIG\<lparr>farnsworth := wpm DEFAULT_CONFIG\<rparr>)"
proof -
  let ?slow = "DEFAULT_CONFIG\<lparr>farnsworth := Fin 10\<rparr>"
  have slow: "num_lt (Fin 0) (farnsworth ?slow) \<and> num_lt (farnsworth ?slow) (wpm ?slow)"
    by (simp add: DEFAULT_CONFIG_def num_lt_def value_of_def)
  have same: "\<not> (num_lt (farnsworth DEFAULT_CONFIG) (wpm DEFAULT_CONFIG) \<and>
      num_gt (farnsworth DEFAULT_CONFIG) (Fin 0))"
    by (simp add: DEFAULT_CONFIG_def num_lt_def value_of_def)
  note one = farnsworth_gaps [of ?slow "''.- ./.''", THEN conjunct1, rule_format, OF slow]
  note two = farnsworth_gaps [of DEFAULT_CONFIG "''.- ./.''", THEN conjunct2, rule_format, OF same]
  have fu: "farnsworthUnitMs ?slow = Fin 120"
    unfolding one [THEN conjunct1] by (simp add: DEFAULT_CONFIG_def num_eval)
  have d: "map duration (generateTimingSequence ''.- ./.'' ?slow)
     = [Fin 60, Fin 60, Fin 180, Fin 360, Fin 60, Fin 840, Fin 60]"
    unfolding one [THEN conjunct2, THEN conjunct1]
    by (simp add: DEFAULT_CONFIG_def
        word_events_each char_events_each signal_events_each on_event_def off_event_def
        split_chars_def trim_def isWhiteSpace_def DOT_UNITS_def DASH_UNITS_def
        INTRA_CHAR_GAP_def INTER_CHAR_GAP_def WORD_GAP_def num_eval)
  have d': "map duration (generateTimingSequence ''.- ./.'' DEFAULT_CONFIG)
     = [Fin 60, Fin 60, Fin 180, Fin 180, Fin 60, Fin 420, Fin 60]"
    by (simp add: generateTimingSequence_def farnsworthUnitMs_def unitMs_def DEFAULT_CONFIG_def
        word_events_each char_events_each signal_events_each on_event_def off_event_def
        split_chars_def trim_def isWhiteSpace_def DOT_UNITS_def DASH_UNITS_def
        INTRA_CHAR_GAP_def INTER_CHAR_GAP_def WORD_GAP_def num_eval)
  from slow same fu d d' two show ?thesis by blast
qed

lemma quotient_31: "rnd False (1200 / 31) = Fin (5447902775044955 * 2 powi (- 47))"
proof -
  have "round_mag (1200 / 31) = of_int 5447902775044955 * 2 powi (5 - 52)"
    by (rule round_mag_eval) simp_all
  then show ?thesis by (simp add: rnd_pos)
qed

lemma quotient_below_31:
  "rnd False (1200 / (31 - 1 / 2 ^ 48)) = Fin (5447902775044955 * 2 powi (- 47))"
proof -
  have "round_mag (1200 / (31 - 1 / 2 ^ 48)) = of_int 5447902775044955 * 2 powi (5 - 52)"
    by (rule round_mag_eval) simp_all
  then show ?thesis by (simp add: rnd_pos)
qed

text \<open>
  C5 as stated fails: at \<open>wpm = 31\<close> and the double next below it,
  \<open>farnsworth = 31 - 1 / 2 ^ 48\<close>, the two quotients \<open>1200 / farnsworth\<close> and \<open>1200 / wpm\<close>
  are the same double, and the gaps between characters and between words last the
  same as with \<open>farnsworth = wpm\<close>.
\<close>

theorem farnsworth_rounding_counterexample:
  "num_lt (Fin 0) (farnsworth (DEFAULT_CONFIG\<lparr>wpm := Fin 31, farnsworth := Fin (31 - 1 / 2 ^ 48)\<rparr>)) \<and>
   num_lt (farnsworth (DEFAULT_CONFIG\<lparr>wpm := Fin 31, farnsworth := Fin (31 - 1 / 2 ^ 48)\<rparr>))
     (wpm (DEFAULT_CONFIG\<lparr>wpm := Fin 31, farnsworth := Fin (31 - 1 / 2 ^ 48)\<rparr>)) \<and>
   map type (generateTimingSequence ''. ./.''
       (DEFAULT_CONFIG\<lparr>wpm := Fin 31, farnsworth := Fin (31 - 1 / 2 ^ 48)\<rparr>))
     = [On, Off, On, Off, On] \<and>
   generateTimingSequence ''. ./.''
       (DEFAULT_CONFIG\<lparr>wpm := Fin 31, farnsworth := Fin (31 - 1 / 2 ^ 48)\<rparr>)
     = generateTimingSequence ''. ./.'' (DEFAULT_CONFIG\<lparr>wpm := Fin 31, farnsworth := Fin 31\<rparr>)"
proof -
  have q: "num_div (Fin 1200) (Fin (31 - 1 / 2 ^ 48)) = num_div (Fin 1200) (Fin 31)"
    using quotient_31 quotient_below_31
    by (simp add: num_div_def is_inf_def is_zero_def signbit_def value_of_def)
  have lt: "num_lt (Fin 0) (Fin (31 - 1 / 2 ^ 48)) \<and> num_lt (Fin (31 - 1 / 2 ^ 48)) (Fin 31)"
    by (simp add: num_lt_def value_of_def)
  have kinds: "map type (generateTimingSequence ''. ./.''
       (DEFAULT_CONFIG\<lparr>wpm := Fin 31, farnsworth := Fin (31 - 1 / 2 ^ 48)\<rparr>))
     = [On, Off, On, Off, On]"
    by (simp add: generateTimingSequence_def word_events_each char_events_each
        signal_events_each on_event_def off_event_def split_chars_def trim_def isWhiteSpace_def)
  have "farnsworthUnitMs (DEFAULT_CONFIG\<lparr>wpm := Fin 31, farnsworth := Fin (31 - 1 / 2 ^ 48)\<rparr>)
        = farnsworthUnitMs (DEFAULT_CONFIG\<lparr>wpm := Fin 31, farnsworth := Fin 31\<rparr>)"
    using lt q by (simp add: farnsworthUnitMs_def unitMs_def num_gt_def)
  then have "generateTimingSequence ''. ./.''
       (DEFAULT_CONFIG\<lparr>wpm := Fin 31, farnsworth := Fin (31 - 1 / 2 ^ 48)\<rparr>)
     = generateTimingSequence ''. ./.'' (DEFAULT_CONFIG\<lparr>wpm := Fin 31, farnsworth := Fin 31\<rparr>)"
    by (simp add: generateTimingSequence_def unitMs_def)
  with lt kinds show ?thesis by simp
qed


section \<open>The code table and its inverse\<close>

lemma distinct_chars: "distinct (map fst MORSE_ENTRIES)"
  by (simp add: MORSE_ENTRIES_def)

lemma distinct_codes: "distinct (map snd MORSE_ENTRIES)"
  by (simp add: MORSE_ENTRIES_def)

lemma Object_entries_set: "set (Object_entries kvs) = set kvs"
  by (auto simp: Object_entries_def)

lemma distinct_entries_codes: "distinct (map snd (Object_entries MORSE_ENTRIES))"
  by (simp add: Object_entries_def index_keys_def MORSE_ENTRIES_def)

lemma fold_reverse_miss:
  "code \<notin> snd ` set kvs \<Longrightarrow>
   fold (\<lambda>(char, code) acc. acc(code \<mapsto> char)) kvs m code = m code"
  by (induction kvs arbitrary: m) (auto split: prod.splits)

lemma fold_reverse_hit:
  "distinct (map snd kvs) \<Longrightarrow> (char, code) \<in> set kvs \<Longrightarrow>
   fold (\<lambda>(char, code) acc. acc(code \<mapsto> char)) kvs m code = Some char"
proof (induction kvs arbitrary: m)
  case Nil
  then show ?case by simp
next
  case (Cons kv kvs)
  show ?case
  proof (cases "kv = (char, code)")
    case True
    with Cons.prems(1) have "code \<notin> snd ` set kvs" by force
    then have "fold (\<lambda>(char, code) acc. acc(code \<mapsto> char)) kvs (m(code \<mapsto> char)) code
               = (m(code \<mapsto> char)) code"
      by (rule fold_reverse_miss)
    then show ?thesis
      unfolding True by (simp only: fold_simps comp_apply case_prod_conv fun_upd_same)
  next
    case False
    with Cons show ?thesis by (auto split: prod.splits)
  qed
qed

lemma reverse_of_entry:
  "(char, code) \<in> set MORSE_ENTRIES \<Longrightarrow> REVERSE_MORSE_MAP code = Some char"
  unfolding REVERSE_MORSE_MAP_def
  by (rule fold_reverse_hit [OF distinct_entries_codes]) (simp add: Object_entries_set)

lemma reverse_miss:
  "code \<notin> snd ` set MORSE_ENTRIES \<Longrightarrow> REVERSE_MORSE_MAP code = None"
  unfolding REVERSE_MORSE_MAP_def
  by (simp add: fold_reverse_miss Object_entries_set)

lemma entry_of_reverse:
  assumes "REVERSE_MORSE_MAP code = Some char"
  shows "(char, code) \<in> set MORSE_ENTRIES"
proof -
  from assms reverse_miss have "code \<in> snd ` set MORSE_ENTRIES" by force
  then obtain c where c: "(c, code) \<in> set MORSE_ENTRIES" by force
  with reverse_of_entry assms have "c = char" by force
  with c show ?thesis by simp
qed

lemma morse_map_entry: "MORSE_MAP char = Some code \<longleftrightarrow> (char, code) \<in> set MORSE_ENTRIES"
  unfolding MORSE_MAP_def using distinct_chars by simp

lemma codes_injective:
  assumes "(c1, code) \<in> set MORSE_ENTRIES" and "(c2, code) \<in> set MORSE_ENTRIES"
  shows "c1 = c2"
  using reverse_of_entry [OF assms(1)] reverse_of_entry [OF assms(2)] by simp

text \<open>
  A key of one character, and a key of dots and dashes, is no name of
  \<open>Object.prototype\<close>: the read gives the own value or undefined.
\<close>

lemma get_property_single:
  "get_property obj [c] = (case obj [c] of Some v \<Rightarrow> Str v | None \<Rightarrow> Undefined)"
  by (simp add: get_property_def OBJECT_PROTOTYPE_METHODS_def split: option.splits)

lemma get_property_code:
  assumes "set code \<subseteq> {CHR ''.'', CHR ''-''}"
  shows "get_property obj code = (case obj code of Some v \<Rightarrow> Str v | None \<Rightarrow> Undefined)"
proof -
  have "code \<noteq> ''constructor''" "code \<noteq> ''__proto__''" "code \<notin> set OBJECT_PROTOTYPE_METHODS"
    using assms by (auto simp: OBJECT_PROTOTYPE_METHODS_def)
  then show ?thesis by (simp add: get_property_def split: option.splits)
qed

lemma char_to_code_single:
  "char_to_code [c] =
     (if c = CHR '' '' then ''/''
      else (case MORSE_MAP [c] of Some code \<Rightarrow> code | None \<Rightarrow> []))"
  by (simp add: char_to_code_def get_property_single or_empty_def element_text_def
      split: option.splits)

lemma code_to_char_code:
  assumes "set code \<subseteq> {CHR ''.'', CHR ''-''}"
  shows "code_to_char code = (case REVERSE_MORSE_MAP code of Some char \<Rightarrow> char | None \<Rightarrow> [])"
  by (simp add: code_to_char_def get_property_code [OF assms] or_empty_def element_text_def
      split: option.splits)

text \<open>
  C9: the table itself is as the claim has it: no two characters of \<open>MORSE_MAP\<close>
  share a code (\<open>codes_injective\<close>) and \<open>REVERSE_MORSE_MAP\<close> maps the code of every
  pair back to its character (\<open>reverse_of_entry\<close>). But the two objects are read with
  \<open>[]\<close>, and a string that is no key of the table and is a name of \<open>Object.prototype\<close>
  is found there: the read of \<open>toString\<close> gives a function and not undefined, so that
  the fallback \<open>|| ''\<close> is not taken and \<open>morseToText\<close> returns the text of the function.
\<close>

theorem inherited_key_found:
  "''toString'' \<notin> snd ` set MORSE_ENTRIES \<and>
   REVERSE_MORSE_MAP ''toString'' = None \<and>
   get_property REVERSE_MORSE_MAP ''toString'' = Function ''toString'' \<and>
   code_to_char ''toString'' = ''function toString() { [native code] }'' \<and>
   morseToText ''toString'' = ''function toString() { [native code] }'' \<and>
   ''constructor'' \<notin> fst ` set MORSE_ENTRIES \<and>
   get_property MORSE_MAP ''constructor'' = Function ''Object''"
proof -
  have k: "''toString'' \<notin> snd ` set MORSE_ENTRIES"
    by (simp add: MORSE_ENTRIES_def)
  then have r: "REVERSE_MORSE_MAP ''toString'' = None" by (rule reverse_miss)
  then have g: "get_property REVERSE_MORSE_MAP ''toString'' = Function ''toString''"
    by (simp add: get_property_def OBJECT_PROTOTYPE_METHODS_def)
  then have c: "code_to_char ''toString'' = ''function toString() { [native code] }''"
    by (simp add: code_to_char_def or_empty_def element_text_def)
  then have m: "morseToText ''toString'' = ''function toString() { [native code] }''"
    by (simp add: morseToText_def trim_def isWhiteSpace_def)
  have n: "''constructor'' \<notin> fst ` set MORSE_ENTRIES"
    by (simp add: MORSE_ENTRIES_def)
  then have "MORSE_MAP ''constructor'' = None"
    by (simp add: MORSE_MAP_def map_of_eq_None_iff)
  then have "get_property MORSE_MAP ''constructor'' = Function ''Object''"
    by (simp add: get_property_def)
  with k r g c m n show ?thesis by simp
qed


section \<open>The strings of the codec\<close>

lemma only_spaces_Nil [simp]: "only_spaces []"
  by (simp add: only_spaces_def)

lemma only_spaces_Cons:
  "only_spaces (c # s) \<longleftrightarrow> (isWhiteSpace c \<longrightarrow> c = CHR '' '') \<and> only_spaces s"
  by (auto simp: only_spaces_def)

lemma only_spaces_append: "only_spaces (s @ t) \<longleftrightarrow> only_spaces s \<and> only_spaces t"
  by (auto simp: only_spaces_def)

lemma only_spaces_subset: "only_spaces s \<Longrightarrow> set t \<subseteq> set s \<Longrightarrow> only_spaces t"
  by (auto simp: only_spaces_def)

lemma set_trim: "set (trim s) \<subseteq> set s"
  by (auto simp: trim_def dest!: set_dropWhileD)

lemma only_spaces_trim: "only_spaces s \<Longrightarrow> only_spaces (trim s)"
  using only_spaces_subset set_trim by blast

lemma replace_separators_id: "only_spaces s \<Longrightarrow> replace_separators s = s"
  by (induction s rule: replace_separators.induct) (auto simp: only_spaces_Cons)

text \<open>
  A function of a string that ignores a space at either end ignores the trimming of a
  string whose only white space is the space.
\<close>

lemma dropWhile_invariant:
  assumes "\<And>w. g (CHR '' '' # w) = g w"
  shows "only_spaces s \<Longrightarrow> g (dropWhile isWhiteSpace s) = g s"
  by (induction s) (auto simp: only_spaces_Cons assms)

lemma drop_end_invariant:
  assumes "\<And>w. g (w @ '' '') = g w"
  shows "only_spaces s \<Longrightarrow> g (rev (dropWhile isWhiteSpace (rev s))) = g s"
proof (induction s rule: rev_induct)
  case Nil
  show ?case by simp
next
  case (snoc x xs)
  then have xs: "only_spaces xs" and x: "isWhiteSpace x \<longrightarrow> x = CHR '' ''"
    by (auto simp: only_spaces_append only_spaces_Cons)
  show ?case
  proof (cases "isWhiteSpace x")
    case True
    with x have "x = CHR '' ''" by simp
    with True snoc.IH [OF xs] assms [of xs] show ?thesis by simp
  next
    case False
    then show ?thesis by simp
  qed
qed

lemma trim_invariant:
  assumes "\<And>w. g (CHR '' '' # w) = g w" and "\<And>w. g (w @ '' '') = g w" and "only_spaces s"
  shows "g (trim s) = g s"
proof -
  have "only_spaces (dropWhile isWhiteSpace s)"
    using assms(3) by (rule only_spaces_subset) (auto dest: set_dropWhileD)
  then have "g (trim s) = g (dropWhile isWhiteSpace s)"
    unfolding trim_def by (rule drop_end_invariant [of g, OF assms(2)])
  also have "\<dots> = g s"
    using assms(3) by (rule dropWhile_invariant [of g, OF assms(1)])
  finally show ?thesis .
qed

subsection \<open>split and join\<close>

lemma split_none: "sep \<notin> set k \<Longrightarrow> split sep k = [k]"
  by (induction k) auto

lemma split_prefix: "sep \<notin> set k \<Longrightarrow> split sep (k @ r) = (k @ hd (split sep r)) # tl (split sep r)"
  by (induction k) auto

lemma split_suffix:
  "sep \<notin> set t \<Longrightarrow> split sep (s @ t) = butlast (split sep s) @ [last (split sep s) @ t]"
proof (induction s)
  case Nil
  then show ?case by (simp add: split_none)
next
  case (Cons c cs)
  show ?case
  proof (cases "c = sep")
    case True
    with Cons show ?thesis by simp
  next
    case False
    have ne: "split sep cs \<noteq> []" by simp
    show ?thesis
    proof (cases "tl (split sep cs) = []")
      case True
      then have one: "split sep cs = [hd (split sep cs)]"
        using ne by (cases "split sep cs") auto
      from Cons False one show ?thesis
        by (metis (no_types, lifting) append_Cons append_Nil butlast.simps(2) last.simps
            list.sel(1) list.sel(3) split.simps(2))
    next
      case tl: False
      from Cons False tl ne show ?thesis
        by (cases "split sep cs") (auto simp: butlast_append)
    qed
  qed
qed

lemma join_empty: "join [] xs = concat xs"
  by (induction xs rule: induct_list012) auto

lemma join_Cons: "xs \<noteq> [] \<Longrightarrow> join sep (x # xs) = x @ sep @ join sep xs"
  by (cases xs) auto

lemma join_append_hd: "join sep ((a @ x) # xs) = a @ join sep (x # xs)"
  by (cases xs) auto

lemma set_join: "set (join sep xs) \<subseteq> set sep \<union> \<Union> (set ` set xs)"
  by (induction xs rule: induct_list012) auto


subsection \<open>Decoding, word by word\<close>

lemma code_to_char_Nil [simp]: "code_to_char [] = []"
proof -
  have "[] \<notin> snd ` set MORSE_ENTRIES" by (simp add: MORSE_ENTRIES_def)
  then show ?thesis by (simp add: code_to_char_code reverse_miss)
qed

lemma split_snoc_sep: "split sep (w @ [sep]) = split sep w @ [[]]"
  by (induction w) auto

lemma decode_word_Nil [simp]: "decode_word [] = []"
  by (simp add: decode_word_def)

lemma decode_word_space: "decode_word (CHR '' '' # w) = decode_word w"
  by (simp add: decode_word_def join_empty)

lemma decode_word_end: "decode_word (w @ '' '') = decode_word w"
  by (simp add: decode_word_def join_empty split_snoc_sep)

lemma decode_word_trim: "only_spaces w \<Longrightarrow> decode_word (trim w) = decode_word w"
  by (rule trim_invariant [of decode_word]) (simp_all add: decode_word_space decode_word_end)

lemma decode_word_code:
  "CHR '' '' \<notin> set k \<Longrightarrow> decode_word (k @ CHR '' '' # w) = code_to_char k @ decode_word w"
  by (simp add: decode_word_def join_empty split_prefix)

lemma decode_word_single: "CHR '' '' \<notin> set k \<Longrightarrow> decode_word k = code_to_char k"
  by (simp add: decode_word_def join_empty split_none)

lemma map_hd_tl: "xs \<noteq> [] \<Longrightarrow> f (hd xs) # map f (tl xs) = map f xs"
  by (cases xs) auto

lemma map_butlast_last: "xs \<noteq> [] \<Longrightarrow> map f (butlast xs) @ [f (last xs)] = map f xs"
  by (induction xs) auto

lemma decode_words_Nil [simp]: "decode_words [] = []"
  by (simp add: decode_words_def)

lemma decode_words_space: "decode_words (CHR '' '' # s) = decode_words s"
proof -
  have "map decode_word (split CHR ''/'' (CHR '' '' # s))
        = decode_word (hd (split CHR ''/'' s)) # map decode_word (tl (split CHR ''/'' s))"
    by (simp add: decode_word_space)
  also have "\<dots> = map decode_word (split CHR ''/'' s)"
    by (simp add: map_hd_tl)
  finally show ?thesis by (simp only: decode_words_def)
qed

lemma decode_words_end: "decode_words (s @ '' '') = decode_words s"
proof -
  let ?X = "split CHR ''/'' s"
  have "map decode_word (split CHR ''/'' (s @ '' ''))
        = map decode_word (butlast ?X) @ [decode_word (last ?X)]"
    by (simp add: split_suffix decode_word_end)
  also have "\<dots> = map decode_word ?X"
    by (simp add: map_butlast_last)
  finally show ?thesis by (simp only: decode_words_def)
qed

lemma decode_words_sep: "decode_words (CHR ''/'' # s) = CHR '' '' # decode_words s"
  by (simp add: decode_words_def join_Cons)

lemma decode_words_code:
  assumes "CHR ''/'' \<notin> set k" and "CHR '' '' \<notin> set k"
  shows "decode_words (k @ CHR '' '' # r) = code_to_char k @ decode_words r"
proof -
  let ?X = "split CHR ''/'' r"
  have "split CHR ''/'' (k @ CHR '' '' # r) = (k @ CHR '' '' # hd ?X) # tl ?X"
    using assms(1) by (simp add: split_prefix)
  then have "decode_words (k @ CHR '' '' # r)
        = join '' '' ((code_to_char k @ decode_word (hd ?X)) # map decode_word (tl ?X))"
    using assms(2) by (simp add: decode_words_def decode_word_code)
  also have "\<dots> = code_to_char k @ join '' '' (decode_word (hd ?X) # map decode_word (tl ?X))"
    by (simp only: join_append_hd)
  also have "\<dots> = code_to_char k @ join '' '' (map decode_word ?X)"
    by (simp add: map_hd_tl)
  finally show ?thesis by (simp only: decode_words_def)
qed

lemma decode_words_single:
  "CHR ''/'' \<notin> set k \<Longrightarrow> CHR '' '' \<notin> set k \<Longrightarrow> decode_words k = code_to_char k"
  by (simp add: decode_words_def split_none decode_word_single)

lemma morseToText_decode:
  assumes "only_spaces s"
  shows "morseToText s = decode_words s"
proof -
  have t: "only_spaces (trim s)" using assms by (rule only_spaces_trim)
  have "map (\<lambda>word. join [] (map code_to_char (split CHR '' '' (trim word))))
            (split CHR ''/'' (trim s))
        = map decode_word (split CHR ''/'' (trim s))"
  proof (rule map_cong [OF refl])
    fix w assume "w \<in> set (split CHR ''/'' (trim s))"
    then have "set w \<subseteq> set (trim s)" using set_split by fastforce
    with t have "only_spaces w" by (rule only_spaces_subset)
    then have "decode_word (trim w) = decode_word w" by (rule decode_word_trim)
    then show "join [] (map code_to_char (split CHR '' '' (trim w))) = decode_word w"
      by (simp add: decode_word_def)
  qed
  then have "morseToText s = decode_words (trim s)"
    by (simp only: morseToText_def decode_words_def)
  also have "\<dots> = decode_words s"
    by (rule trim_invariant [of decode_words])
       (simp_all add: decode_words_space decode_words_end assms)
  finally show ?thesis .
qed


subsection \<open>The tokens of the encoder\<close>

lemma codes_alphabet:
  "(char, code) \<in> set MORSE_ENTRIES \<Longrightarrow> set code \<subseteq> {CHR ''.'', CHR ''-''}"
proof -
  have "\<forall>(char, code) \<in> set MORSE_ENTRIES. set code \<subseteq> {CHR ''.'', CHR ''-''}"
    by (simp add: MORSE_ENTRIES_def)
  then show "(char, code) \<in> set MORSE_ENTRIES \<Longrightarrow> set code \<subseteq> {CHR ''.'', CHR ''-''}"
    by blast
qed

lemma set_char_to_code: "set (char_to_code [c]) \<subseteq> {CHR ''.'', CHR ''-'', CHR ''/''}"
proof (cases "c = CHR '' ''")
  case True
  then show ?thesis by (simp add: char_to_code_single)
next
  case False
  show ?thesis
  proof (cases "MORSE_MAP [c]")
    case None
    with False show ?thesis by (simp add: char_to_code_single)
  next
    case (Some code)
    then have "set code \<subseteq> {CHR ''.'', CHR ''-''}"
      by (simp add: morse_map_entry codes_alphabet)
    with False Some show ?thesis by (auto simp: char_to_code_single)
  qed
qed

lemma only_spaces_joined: "only_spaces (join '' '' (map char_to_code (split_chars s)))"
proof -
  have "set (join '' '' (map char_to_code (split_chars s)))
          \<subseteq> {CHR '' '', CHR ''.'', CHR ''-'', CHR ''/''}"
    using set_join [of "'' ''" "map char_to_code (split_chars s)"] set_char_to_code
    by (fastforce simp: split_chars_def)
  then show ?thesis
    by (auto simp: only_spaces_def isWhiteSpace_def)
qed

lemma textToMorse_trim_join:
  "textToMorse text = trim (join '' '' (map char_to_code (split_chars (toUpperCase text))))"
  by (simp add: textToMorse_def replace_separators_id only_spaces_joined)

lemma decode_token:
  "decode_words (char_to_code [c]) = filter (\<lambda>c. c = CHR '' '' \<or> [c] \<in> dom MORSE_MAP) [c] \<and>
   decode_words (char_to_code [c] @ CHR '' '' # r)
     = filter (\<lambda>c. c = CHR '' '' \<or> [c] \<in> dom MORSE_MAP) [c] @ decode_words r"
proof (cases "c = CHR '' ''")
  case True
  then show ?thesis
    by (simp add: char_to_code_single decode_words_sep decode_words_space)
next
  case False
  show ?thesis
  proof (cases "MORSE_MAP [c]")
    case None
    with False show ?thesis
      by (simp add: char_to_code_single decode_words_space dom_def)
  next
    case (Some code)
    then have entry: "([c], code) \<in> set MORSE_ENTRIES" by (simp add: morse_map_entry)
    then have "set code \<subseteq> {CHR ''.'', CHR ''-''}" by (rule codes_alphabet)
    then have no: "CHR ''/'' \<notin> set code" "CHR '' '' \<notin> set code" by auto
    from entry have "code_to_char code = [c]"
      by (simp add: code_to_char_code [OF \<open>set code \<subseteq> {CHR ''.'', CHR ''-''}\<close>] reverse_of_entry)
    with False Some no show ?thesis
      by (simp add: char_to_code_single decode_words_code decode_words_single dom_def)
  qed
qed

lemma decode_joined:
  "decode_words (join '' '' (map char_to_code (split_chars s)))
     = filter (\<lambda>c. c = CHR '' '' \<or> [c] \<in> dom MORSE_MAP) s"
proof (induction s rule: induct_list012)
  case 1
  show ?case by (simp add: split_chars_def)
next
  case (2 c)
  show ?case using decode_token [of c] by (simp add: split_chars_def)
next
  case (3 c c' s)
  have "decode_words (join '' '' (map char_to_code (split_chars (c # c' # s))))
        = decode_words (char_to_code [c] @ CHR '' '' #
            join '' '' (map char_to_code (split_chars (c' # s))))"
    by (simp add: split_chars_def)
  also have "\<dots> = filter (\<lambda>c. c = CHR '' '' \<or> [c] \<in> dom MORSE_MAP) [c]
                   @ decode_words (join '' '' (map char_to_code (split_chars (c' # s))))"
    using decode_token by blast
  finally show ?case using "3.IH"(2) by simp
qed

section \<open>The round trip of the codec\<close>

text \<open>
  C4: for every text, \<open>morseToText (textToMorse text)\<close> is the text in upper case
  without the characters outside the domain of the code table, the domain being the
  characters of \<open>MORSE_MAP\<close> and the space.
\<close>

theorem codec_roundtrip:
  "morseToText (textToMorse text)
     = filter (\<lambda>c. c = CHR '' '' \<or> [c] \<in> dom MORSE_MAP) (toUpperCase text)"
proof -
  let ?J = "join '' '' (map char_to_code (split_chars (toUpperCase text)))"
  have J: "only_spaces ?J" by (rule only_spaces_joined)
  then have "only_spaces (trim ?J)" by (rule only_spaces_trim)
  then have "morseToText (trim ?J) = decode_words (trim ?J)" by (rule morseToText_decode)
  also have "\<dots> = decode_words ?J"
    by (rule trim_invariant [of decode_words])
       (simp_all add: decode_words_space decode_words_end J)
  also have "\<dots> = filter (\<lambda>c. c = CHR '' '' \<or> [c] \<in> dom MORSE_MAP) (toUpperCase text)"
    by (rule decode_joined)
  finally show ?thesis by (simp only: textToMorse_trim_join)
qed


section \<open>The shape of the code string\<close>

lemma count_dropWhile: "\<not> P x \<Longrightarrow> count_list (dropWhile P s) x = count_list s x"
  by (induction s) auto

lemma count_trim: "\<not> isWhiteSpace x \<Longrightarrow> count_list (trim s) x = count_list s x"
  by (simp add: trim_def count_dropWhile)

lemma count_char_to_code:
  "count_list (char_to_code [c]) CHR ''/'' = (if c = CHR '' '' then 1 else 0)"
proof (cases "c = CHR '' ''")
  case True
  then show ?thesis by (simp add: char_to_code_single)
next
  case False
  show ?thesis
  proof (cases "MORSE_MAP [c]")
    case None
    with False show ?thesis by (simp add: char_to_code_single)
  next
    case (Some code)
    then have "set code \<subseteq> {CHR ''.'', CHR ''-''}"
      by (simp add: morse_map_entry codes_alphabet)
    then have "CHR ''/'' \<notin> set code" by auto
    with False Some show ?thesis by (simp add: char_to_code_single)
  qed
qed

lemma count_joined:
  "count_list (join '' '' (map char_to_code (split_chars s))) CHR ''/''
     = count_list s CHR '' ''"
  by (induction s rule: induct_list012) (simp_all add: split_chars_def count_char_to_code)

lemma count_toUpperChar:
  "count_list (toUpperChar c) CHR '' '' = (if c = CHR '' '' then 1 else 0)"
proof (cases "map_of (zip LOWER_CASE UPPER_CASE) c")
  case None
  then show ?thesis by (auto simp: toUpperChar_def)
next
  case (Some u)
  then have "(c, u) \<in> set (zip LOWER_CASE UPPER_CASE)"
    by (rule map_of_SomeD)
  then have "c \<noteq> CHR '' '' \<and> u \<noteq> CHR '' ''"
    by (auto simp: LOWER_CASE_def UPPER_CASE_def)
  with Some show ?thesis by (simp add: toUpperChar_def)
qed

lemma count_toUpperCase: "count_list (toUpperCase s) CHR '' '' = count_list s CHR '' ''"
proof (induction s)
  case Nil
  show ?case by (simp add: toUpperCase_def)
next
  case (Cons c s)
  have "toUpperCase (c # s) = toUpperChar c @ toUpperCase s"
    by (simp add: toUpperCase_def)
  with Cons show ?case by (simp add: count_list_append count_toUpperChar)
qed

lemma last_dropWhile: "dropWhile P xs \<noteq> [] \<Longrightarrow> last (dropWhile P xs) = last xs"
  by (induction xs) (auto split: if_splits)

lemma trim_ends:
  "trim s = [] \<or> \<not> isWhiteSpace (hd (trim s)) \<and> \<not> isWhiteSpace (last (trim s))"
proof (cases "trim s = []")
  case True
  then show ?thesis by simp
next
  case False
  let ?d = "dropWhile isWhiteSpace s"
  let ?e = "dropWhile isWhiteSpace (rev ?d)"
  from False have e: "?e \<noteq> []" by (simp add: trim_def)
  have d: "?d \<noteq> []"
  proof
    assume "?d = []"
    then have "?e = []" by (simp only: rev.simps dropWhile.simps)
    with e show False by contradiction
  qed
  from e have "\<not> isWhiteSpace (hd ?e)" by (rule hd_dropWhile)
  then have l: "\<not> isWhiteSpace (last (trim s))"
    using e by (simp add: trim_def last_rev)
  from e have "last ?e = last (rev ?d)" by (rule last_dropWhile)
  also have "\<dots> = hd ?d" using d by (simp add: last_rev)
  finally have "hd (trim s) = hd ?d" using e by (simp add: trim_def hd_rev)
  moreover from d have "\<not> isWhiteSpace (hd ?d)" by (rule hd_dropWhile)
  ultimately show ?thesis using l by simp
qed

text \<open>
  C7, as the code has it: the output of \<open>textToMorse\<close> is the codes of the characters
  (the separator token for a space, the empty code for a character without a code)
  joined with a single space, and trimmed of the white space at both ends. The
  replacement that is to normalise the separators leaves the joined string as it is:
  the output holds one separator token for each space of the text, so that two spaces
  in a row give two separator tokens in a row.
\<close>

theorem textToMorse_shape:
  "textToMorse text = trim (join '' '' (map char_to_code (split_chars (toUpperCase text)))) \<and>
   count_list (textToMorse text) CHR ''/'' = count_list text CHR '' '' \<and>
   (textToMorse text = [] \<or>
    \<not> isWhiteSpace (hd (textToMorse text)) \<and> \<not> isWhiteSpace (last (textToMorse text)))"
proof -
  have "\<not> isWhiteSpace CHR ''/''" by (simp add: isWhiteSpace_def)
  then have "count_list (textToMorse text) CHR ''/'' = count_list text CHR '' ''"
    by (simp add: textToMorse_trim_join count_trim count_joined count_toUpperCase)
  moreover have "textToMorse text = [] \<or>
    \<not> isWhiteSpace (hd (textToMorse text)) \<and> \<not> isWhiteSpace (last (textToMorse text))"
    unfolding textToMorse_trim_join by (rule trim_ends)
  ultimately show ?thesis using textToMorse_trim_join by blast
qed

text \<open>
  C7 as stated fails: the two spaces of this text give two separator tokens in a row.
\<close>

theorem consecutive_separators_counterexample:
  "split CHR '' '' (textToMorse ''A  B'') = [''.-'', ''/'', ''/'', ''-...'']"
  by (simp add: textToMorse_def upper_eval split_chars_def char_to_code_def lookup_eval
      MORSE_MAP_def MORSE_ENTRIES_def trim_def isWhiteSpace_def)

section \<open>The header of the stream\<close>

declare write_data.simps [simp del]

lemma length_le16 [simp]: "length (le16 w) = 2"
  by (simp add: le16_def)

lemma length_le32 [simp]: "length (le32 w) = 4"
  by (simp add: le32_def)

lemma fresh_sel [simp]:
  "view (fresh w k off) = w @ replicate k 0"
  "pos (fresh w k off) = length w"
  "offset (fresh w k off) = off"
  by (simp_all add: fresh_def)

lemma write_bytes_fresh:
  "length bs \<le> k \<Longrightarrow>
   write_bytes (length w) bs (w @ replicate k 0) = Inr (w @ bs @ replicate (k - length bs) 0)"
  by (simp add: write_bytes_def)

lemma setUint32_fresh:
  "4 \<le> k \<Longrightarrow> setUint32 x (fresh w k off) = Inr (fresh (w @ le32 (ToUint32 x)) (k - 4) off)"
  by (simp add: setUint32_def write_bytes_fresh fresh_def)

lemma setUint16_fresh:
  "2 \<le> k \<Longrightarrow> setUint16 x (fresh w k off) = Inr (fresh (w @ le16 (ToUint16 x)) (k - 2) off)"
  by (simp add: setUint16_def write_bytes_fresh fresh_def)

lemma length_header_bytes [simp]: "length (header_bytes abuffer len) = 44"
  by (simp add: header_bytes_def Let_def)

lemma write_header_fresh:
  "write_header abuffer len (fresh [] (44 + m) 0) = Inr (fresh (header_bytes abuffer len) m 0)"
  by (simp add: write_header_def header_bytes_def Let_def setUint32_fresh setUint16_fresh)

section \<open>The data chunk\<close>

lemma write_sample_ok:
  assumes "44 + offset s + 2 \<le> length (view s)"
  shows "\<exists>s'. write_sample abuffer i s = Inr s' \<and> pos s' = pos s \<and>
           offset s' = offset s + 2 \<and> length (view s') = length (view s) \<and>
           take 44 (view s') = take 44 (view s)"
  using assms by (simp add: write_sample_def Let_def write_bytes_def)

lemma run_samples_ok:
  "44 + offset s + 2 * length is \<le> length (view s) \<Longrightarrow>
   \<exists>s'. run_all (map (write_sample abuffer) is) s = Inr s' \<and> pos s' = pos s \<and>
        offset s' = offset s + 2 * length is \<and> length (view s') = length (view s) \<and>
        take 44 (view s') = take 44 (view s)"
proof (induction "is" arbitrary: s)
  case Nil
  show ?case by simp
next
  case (Cons i "is")
  then have "44 + offset s + 2 \<le> length (view s)" by simp
  then obtain s1 where s1: "write_sample abuffer i s = Inr s1" "pos s1 = pos s"
      "offset s1 = offset s + 2" "length (view s1) = length (view s)"
      "take 44 (view s1) = take 44 (view s)"
    using write_sample_ok by blast
  with Cons.prems have "44 + offset s1 + 2 * length is \<le> length (view s1)" by simp
  then obtain s' where "run_all (map (write_sample abuffer) is) s1 = Inr s'" "pos s' = pos s1"
      "offset s' = offset s1 + 2 * length is" "length (view s') = length (view s1)"
      "take 44 (view s') = take 44 (view s1)"
    using Cons.IH by blast
  with s1 show ?case by simp
qed

lemma write_frame_ok:
  assumes "44 + offset s + 2 * numberOfChannels abuffer \<le> length (view s)"
  shows "\<exists>s'. write_frame abuffer s = Inr s' \<and> pos s' = pos s + 1 \<and>
           offset s' = offset s + 2 * numberOfChannels abuffer \<and>
           length (view s') = length (view s) \<and> take 44 (view s') = take 44 (view s)"
proof -
  from assms have "44 + offset s + 2 * length [0..<numberOfChannels abuffer] \<le> length (view s)"
    by simp
  then obtain s1 where "run_all (map (write_sample abuffer) [0..<numberOfChannels abuffer]) s = Inr s1"
      "pos s1 = pos s" "offset s1 = offset s + 2 * length [0..<numberOfChannels abuffer]"
      "length (view s1) = length (view s)" "take 44 (view s1) = take 44 (view s)"
    using run_samples_ok by blast
  then show ?thesis by (simp add: write_frame_def)
qed

lemma write_data_ok:
  assumes "44 \<le> pos s"
    and "offset s = 2 * numberOfChannels abuffer * (pos s - 44)"
    and "length (view s) = 44 + 2 * length_ab abuffer * numberOfChannels abuffer"
  shows "\<exists>s'. write_data abuffer s = Inr s' \<and> length (view s') = length (view s) \<and>
           take 44 (view s') = take 44 (view s)"
  using assms
proof (induction n \<equiv> "length_ab abuffer - pos s" arbitrary: s)
  case 0
  then have "\<not> pos s < length_ab abuffer" by simp
  then show ?case by (simp add: write_data.simps)
next
  case (Suc n)
  let ?C = "numberOfChannels abuffer"
  from Suc.hyps(2) have less: "pos s < length_ab abuffer" by simp
  with Suc.prems(1) have "pos s - 44 + 1 \<le> length_ab abuffer" by simp
  then have "?C * (pos s - 44 + 1) \<le> ?C * length_ab abuffer" by (rule mult_le_mono2)
  then have "2 * ?C * (pos s - 44) + 2 * ?C \<le> 2 * length_ab abuffer * ?C"
    by (simp add: algebra_simps)
  with Suc.prems have "44 + offset s + 2 * ?C \<le> length (view s)" by simp
  then obtain s1 where s1: "write_frame abuffer s = Inr s1" "pos s1 = pos s + 1"
      "offset s1 = offset s + 2 * ?C" "length (view s1) = length (view s)"
      "take 44 (view s1) = take 44 (view s)"
    using write_frame_ok by blast
  have "n = length_ab abuffer - pos s1" using Suc.hyps(2) s1(2) by simp
  moreover have "44 \<le> pos s1" using Suc.prems(1) s1(2) by simp
  moreover have "offset s1 = 2 * ?C * (pos s1 - 44)"
    using Suc.prems(1,2) s1(2,3) by (simp add: algebra_simps Suc_diff_le)
  moreover have "length (view s1) = 44 + 2 * length_ab abuffer * ?C"
    using Suc.prems(3) s1(4) by simp
  ultimately obtain s' where "write_data abuffer s1 = Inr s'"
      "length (view s') = length (view s1)" "take 44 (view s') = take 44 (view s1)"
    using Suc.hyps(1) by blast
  with s1 less show ?case by (simp add: write_data.simps [of abuffer s])
qed

lemma bufferToWav_ok:
  "\<exists>bytes. bufferToWav abuffer = Inr bytes \<and>
     length bytes = 44 + 2 * length_ab abuffer * numberOfChannels abuffer \<and>
     take 44 bytes
       = header_bytes abuffer (int (length_ab abuffer * numberOfChannels abuffer * 2 + 44))"
proof -
  let ?m = "length_ab abuffer * numberOfChannels abuffer * 2"
  let ?h = "header_bytes abuffer (int (?m + 44))"
  have start: "\<lparr>view = replicate (?m + 44) 0, pos = 0, offset = 0\<rparr> = fresh [] (44 + ?m) 0"
    by (simp add: fresh_def add.commute)
  have header: "write_header abuffer (int (?m + 44)) (fresh [] (44 + ?m) 0) = Inr (fresh ?h ?m 0)"
    by (rule write_header_fresh)
  have "\<exists>s'. write_data abuffer (fresh ?h ?m 0) = Inr s' \<and>
          length (view s') = length (view (fresh ?h ?m 0)) \<and>
          take 44 (view s') = take 44 (view (fresh ?h ?m 0))"
    by (rule write_data_ok) simp_all
  then obtain s' where data: "write_data abuffer (fresh ?h ?m 0) = Inr s'"
    and s': "length (view s') = 44 + ?m" "take 44 (view s') = ?h"
    by auto
  have "bufferToWav abuffer = Inr (view s')"
    by (simp only: bufferToWav_def Let_def start header data sum.case)
  with s' show ?thesis by simp
qed

section \<open>The fields of the header\<close>

lemma bytes_of_nat:
  fixes x :: nat
  shows "x mod 256 + 256 * (x div 256 mod 256) + 65536 * (x div 65536 mod 256)
    + 16777216 * (x div 16777216) = x"
proof -
  define a where "a = x div 256"
  define b where "b = a div 256"
  define c where "c = b div 256"
  have b: "x div 65536 = b" by (simp add: a_def b_def div_mult2_eq)
  have c: "x div 16777216 = c" by (simp add: a_def b_def c_def div_mult2_eq)
  have "x = 256 * a + x mod 256" by (simp add: a_def)
  moreover have "a = 256 * b + a mod 256" by (simp add: b_def)
  moreover have "b = 256 * c + b mod 256" by (simp add: c_def)
  ultimately show ?thesis unfolding b c a_def [symmetric] by linarith
qed

lemma unat_drop_bit_div: "unat (drop_bit n w) = unat w div 2 ^ n"
  unfolding unat_drop_bit_eq by (rule drop_bit_eq_div)

lemma le32_value:
  fixes w :: "32 word"
  shows "unat (ucast w :: byte) + 256 * unat (ucast (drop_bit 8 w) :: byte)
         + 65536 * unat (ucast (drop_bit 16 w) :: byte)
         + 16777216 * unat (ucast (drop_bit 24 w) :: byte) = unat w"
proof -
  have "unat w < 2 ^ 32" using unsigned_less [of w] by simp
  then show ?thesis
    by (simp add: unsigned_ucast_eq unat_drop_bit_div take_bit_eq_mod bytes_of_nat)
qed

lemma le16_value:
  fixes w :: "16 word"
  shows "unat (ucast w :: byte) + 256 * unat (ucast (drop_bit 8 w) :: byte) = unat w"
proof -
  have "unat w < 2 ^ 16" using unsigned_less [of w] by simp
  then have "unat w div 256 < 256" by simp
  then have "unat w div 256 mod 256 = unat w div 256" by simp
  then show ?thesis
    by (simp add: unsigned_ucast_eq unat_drop_bit_div take_bit_eq_mod)
qed

lemma header_fields:
  fixes a b c d e h i l m :: "32 word" and f g j k :: "16 word"
  assumes "hdr = le32 a @ le32 b @ le32 c @ le32 d @ le32 e @ le16 f @ le16 g @ le32 h
             @ le32 i @ le16 j @ le16 k @ le32 l @ le32 m"
  shows "u32_at 0 hdr = unat a" and "u32_at 4 hdr = unat b" and "u32_at 8 hdr = unat c"
    and "u32_at 12 hdr = unat d" and "u32_at 16 hdr = unat e" and "u16_at 20 hdr = unat f"
    and "u16_at 22 hdr = unat g" and "u32_at 24 hdr = unat h" and "u32_at 28 hdr = unat i"
    and "u16_at 32 hdr = unat j" and "u16_at 34 hdr = unat k" and "u32_at 36 hdr = unat l"
    and "u32_at 40 hdr = unat m"
  unfolding assms le32_def le16_def u32_at_def u16_at_def
  by (simp_all add: le32_value le16_value)

lemma u32_at_take: "i + 3 < n \<Longrightarrow> u32_at i (take n bs) = u32_at i bs"
  by (simp add: u32_at_def)

lemma u16_at_take: "i + 1 < n \<Longrightarrow> u16_at i (take n bs) = u16_at i bs"
  by (simp add: u16_at_def)

lemma ToUint32_count: "ToUint32 (of_count (int n)) = word_of_nat n"
  by (simp add: ToUint32_def of_count_def trunc_def)

lemma unat_of_nat32: "unat (word_of_nat n :: 32 word) = n mod 2 ^ 32"
  by (simp add: unat_of_nat)

text \<open>
  C6: for every mono buffer of N samples at 44100 Hz, whatever the samples, the encoder
  returns a stream of \<open>44 + 2N\<close> bytes. Its header reads, in little-endian order:
  RIFF, the length of the stream less 8, WAVE, fmt, the chunk length 16, the format 1,
  one channel, the rate 44100, the byte rate \<open>44100 * 2\<close>, the block alignment 2,
  16 bits per sample, data, and the length \<open>2N\<close> of the data chunk. A field of 32
  bits holds its value modulo \<open>2 ^ 32\<close>.
\<close>

theorem wav_header:
  "\<exists>bytes.
     bufferToWav \<lparr>sampleRate = Fin 44100, length_ab = length samples,
                  channelData = [samples]\<rparr> = Inr bytes \<and>
     length bytes = 44 + 2 * length samples \<and>
     take 4 bytes = [0x52, 0x49, 0x46, 0x46] \<and>
     u32_at 4 bytes = (length bytes - 8) mod 2 ^ 32 \<and>
     take 4 (drop 8 bytes) = [0x57, 0x41, 0x56, 0x45] \<and>
     take 4 (drop 12 bytes) = [0x66, 0x6D, 0x74, 0x20] \<and>
     u32_at 16 bytes = 16 \<and>
     u16_at 20 bytes = 1 \<and>
     u16_at 22 bytes = 1 \<and>
     u32_at 24 bytes = 44100 \<and>
     u32_at 28 bytes = 44100 * 2 \<and>
     u16_at 32 bytes = 2 \<and>
     u16_at 34 bytes = 16 \<and>
     take 4 (drop 36 bytes) = [0x64, 0x61, 0x74, 0x61] \<and>
     u32_at 40 bytes = (2 * length samples) mod 2 ^ 32"
proof -
  let ?ab = "\<lparr>sampleRate = Fin 44100, length_ab = length samples, channelData = [samples]\<rparr>"
  let ?n = "length samples"
  let ?h = "header_bytes ?ab (int (?n * 2 + 44))"
  obtain bytes where ok: "bufferToWav ?ab = Inr bytes"
    and len: "length bytes = 44 + 2 * ?n" and hdr: "take 44 bytes = ?h"
    using bufferToWav_ok [of ?ab] by (auto simp: numberOfChannels_def)
  have riff: "int (?n * 2 + 44) - 8 = int (?n * 2 + 36)"
    and data: "int (?n * 2 + 44) - 40 - 4 = int (?n * 2)"
    by simp_all
  have shape: "?h =
      le32 0x46464952 @ le32 (word_of_nat (?n * 2 + 36)) @ le32 0x45564157 @
      le32 0x20746d66 @ le32 16 @ le16 1 @ le16 1 @ le32 44100 @ le32 88200 @
      le16 2 @ le16 16 @ le32 0x61746164 @ le32 (word_of_nat (?n * 2))"
    unfolding header_bytes_def Let_def riff data ToUint32_count
    by (simp add: numberOfChannels_def ToUint32_def ToUint16_def of_count_def trunc_def
        num_eval)
  from hdr shape have bytes44: "take 44 bytes =
      le32 0x46464952 @ le32 (word_of_nat (?n * 2 + 36)) @ le32 0x45564157 @
      le32 0x20746d66 @ le32 16 @ le16 1 @ le16 1 @ le32 44100 @ le32 88200 @
      le16 2 @ le16 16 @ le32 0x61746164 @ le32 (word_of_nat (?n * 2))"
    by (simp only:)
  note f = header_fields [OF bytes44]
  have t0: "take 4 bytes = take 4 (take 44 bytes)"
    and t8: "take 4 (drop 8 bytes) = take 4 (drop 8 (take 44 bytes))"
    and t12: "take 4 (drop 12 bytes) = take 4 (drop 12 (take 44 bytes))"
    and t36: "take 4 (drop 36 bytes) = take 4 (drop 36 (take 44 bytes))"
    by (simp_all add: drop_take)
  have "u32_at 4 bytes = (length bytes - 8) mod 2 ^ 32"
    using f(2) unfolding unat_of_nat32
    by (simp add: u32_at_take len mult.commute add.commute)
  moreover have "u32_at 40 bytes = (2 * ?n) mod 2 ^ 32"
    using f(13) unfolding unat_of_nat32
    by (simp add: u32_at_take mult.commute)
  moreover have "u32_at 16 bytes = 16" "u16_at 20 bytes = 1" "u16_at 22 bytes = 1"
    "u32_at 24 bytes = 44100" "u32_at 28 bytes = 44100 * 2" "u16_at 32 bytes = 2"
    "u16_at 34 bytes = 16"
    using f(5-11) by (simp_all add: u32_at_take u16_at_take)
  moreover have "take 4 bytes = [0x52, 0x49, 0x46, 0x46]"
    "take 4 (drop 8 bytes) = [0x57, 0x41, 0x56, 0x45]"
    "take 4 (drop 12 bytes) = [0x66, 0x6D, 0x74, 0x20]"
    "take 4 (drop 36 bytes) = [0x64, 0x61, 0x74, 0x61]"
    unfolding t0 t8 t12 t36 bytes44 by (simp_all add: le32_def le16_def)
  ultimately show ?thesis using ok len by blast
qed

section \<open>The conversion of the samples\<close>

lemma bufferToWav_one_frame:
  assumes "length channel = 45"
  shows "bufferToWav \<lparr>sampleRate = rate, length_ab = 45, channelData = [channel]\<rparr>
         = Inr (header_bytes \<lparr>sampleRate = rate, length_ab = 45, channelData = [channel]\<rparr> 134
                @ le16 (ToUint16 (bitor_zero
                    (let clamped = Math_max (Fin (- 1)) (Math_min (Fin 1) (channel ! 44))
                     in if num_lt (num_add (Fin (1 / 2)) clamped) (Fin 0)
                        then num_mul clamped (Fin 32768)
                        else num_mul clamped (Fin 32767))))
                @ replicate 88 0)"
proof -
  let ?ab = "\<lparr>sampleRate = rate, length_ab = 45, channelData = [channel]\<rparr>"
  let ?h = "header_bytes ?ab 134"
  let ?x = "le16 (ToUint16 (bitor_zero
                    (let clamped = Math_max (Fin (- 1)) (Math_min (Fin 1) (channel ! 44))
                     in if num_lt (num_add (Fin (1 / 2)) clamped) (Fin 0)
                        then num_mul clamped (Fin 32768)
                        else num_mul clamped (Fin 32767))))"
  have start: "\<lparr>view = replicate 134 0, pos = 0, offset = 0\<rparr> = fresh [] 134 0"
    by (simp add: fresh_def)
  have header: "write_header ?ab 134 (fresh [] 134 0) = Inr (fresh ?h 90 0)"
    using write_header_fresh [of ?ab 134 90] by simp
  have sample: "write_sample ?ab 0 (fresh ?h 90 0)
                = Inr \<lparr>view = ?h @ ?x @ replicate 88 0, pos = 44, offset = 2\<rparr>"
    using assms write_bytes_fresh [of ?x 90 ?h]
    by (simp add: write_sample_def getChannelData_def element_at_def Let_def fresh_def)
  have frame: "write_frame ?ab (fresh ?h 90 0)
                = Inr \<lparr>view = ?h @ ?x @ replicate 88 0, pos = 45, offset = 2\<rparr>"
    by (simp add: write_frame_def numberOfChannels_def sample)
  have "write_data ?ab (fresh ?h 90 0)
                = Inr \<lparr>view = ?h @ ?x @ replicate 88 0, pos = 45, offset = 2\<rparr>"
    by (simp add: write_data.simps [of ?ab "fresh ?h 90 0"] frame
        write_data.simps [of ?ab "\<lparr>view = ?h @ ?x @ replicate 88 0, pos = 45, offset = 2\<rparr>"])
  then show ?thesis
    by (simp add: bufferToWav_def numberOfChannels_def start header)
qed

lemma half_plus_quarter: "num_add (Fin (1 / 2)) (Fin (- (1 / 4))) = Fin (1 / 4)"
  using rnd_dyadic [of "1 / 4" 1 "- 2" False]
  by (simp add: num_add_def is_inf_def signbit_def value_of_def)

lemma scaled_quarter: "num_mul (Fin (- (1 / 4))) (Fin 32767) = Fin (- (32767 / 4))"
  using rnd_dyadic [of "- (32767 / 4)" "- 32767" "- 2" True]
  by (simp add: num_mul_def is_inf_def signbit_def value_of_def)

text \<open>
  C2 at two buffers. The sample \<open>-0.25\<close> at index 44 is scaled by 32767, not by
  32768, since the test of the sign is \<open>0.5 + sample < 0\<close>: it is written as
  \<open>-8191\<close>, where \<open>-0.25 * 32768\<close> is \<open>-8192\<close>. The samples at the indices below
  44 are never read, since \<open>pos\<close> is 44 when the loop starts: the one sample
  \<open>-1.0\<close> of the second buffer leaves the data chunk at zero.
\<close>

theorem sample_scaling_evaluated:
  "map_sum id (\<lambda>bytes. (length bytes, s16_at 44 bytes, drop 46 bytes))
     (bufferToWav \<lparr>sampleRate = Fin 44100, length_ab = 45,
                   channelData = [replicate 44 (Fin 0) @ [Fin (- 1 / 4)]]\<rparr>)
     = Inr (134, - 8191, replicate 88 0) \<and>
   map_sum id (\<lambda>bytes. (length bytes, s16_at 44 bytes))
     (bufferToWav \<lparr>sampleRate = Fin 44100, length_ab = 1, channelData = [[Fin (- 1)]]\<rparr>)
     = Inr (46, 0)"
proof
  have x: "(replicate 44 (Fin 0) @ [Fin (- 1 / 4)]) ! 44 = Fin (- 1 / 4)"
    by (simp add: nth_append)
  have "le16 (ToUint16 (bitor_zero
                    (let clamped = Math_max (Fin (- 1)) (Math_min (Fin 1) (Fin (- 1 / 4)))
                     in if num_lt (num_add (Fin (1 / 2)) clamped) (Fin 0)
                        then num_mul clamped (Fin 32768)
                        else num_mul clamped (Fin 32767)))) = [0x01, 0xE0]"
    by (simp add: le16_def ToUint16_def ToUint32_def bitor_zero_def trunc_def Math_max_def
        Math_min_def num_lt_def signbit_def value_of_def half_plus_quarter scaled_quarter)
  then show "map_sum id (\<lambda>bytes. (length bytes, s16_at 44 bytes, drop 46 bytes))
     (bufferToWav \<lparr>sampleRate = Fin 44100, length_ab = 45,
                   channelData = [replicate 44 (Fin 0) @ [Fin (- 1 / 4)]]\<rparr>)
     = Inr (134, - 8191, replicate 88 0)"
    by (simp add: bufferToWav_one_frame x s16_at_def u16_at_def nth_append)
next
  show "map_sum id (\<lambda>bytes. (length bytes, s16_at 44 bytes))
     (bufferToWav \<lparr>sampleRate = Fin 44100, length_ab = 1, channelData = [[Fin (- 1)]]\<rparr>)
     = Inr (46, 0)"
    by code_simp
qed

end
